theory Spec2Isabelle
  imports Main "HOL-Library.Word"
begin

section \<open>Data of the replayer\<close>

text \<open>
  The transaction replayer (package \<^verbatim>\<open>replayer\<close>) reads blocks of an Ethereum chain from
  a database, turns them into a stream of steps (\<^verbatim>\<open>*Tx\<close> values sent over a channel) and
  submits the steps to a NEAR account. The collaborators that live outside the repository
  (the go-ethereum database, the NEAR account, the RLP encoder) are parameters of the model.
\<close>

type_synonym hash = "256 word"      \<comment> \<open>\<^verbatim>\<open>common.Hash\<close>, 32 bytes\<close>
type_synonym bytes = "8 word list"  \<comment> \<open>\<^verbatim>\<open>[]byte\<close>\<close>
type_synonym uint64 = "64 word"
type_synonym go_int = "64 word"     \<comment> \<open>Go \<^verbatim>\<open>int\<close> on a 64-bit platform, read with \<open>sint\<close>\<close>

text \<open>\<^verbatim>\<open>types.Transaction\<close>, through the accessors that \<^verbatim>\<open>showTx\<close> reads.\<close>

record transaction =
  Nonce :: uint64
  GasPrice :: int
  Gas_limit :: uint64
  To :: "160 word option"
  Value :: int
  Data :: bytes

text \<open>\<^verbatim>\<open>types.Block\<close>, through \<^verbatim>\<open>ParentHash()\<close> and \<^verbatim>\<open>Transactions()\<close>.\<close>

record block =
  ParentHash :: hash
  Transactions :: "transaction list"

text \<open>
  \<^verbatim>\<open>rawdb.ReadBlock(db, hash, number)\<close>: the block stored under a hash and a height, or
  \<^verbatim>\<open>nil\<close>.
\<close>

type_synonym database = "hash \<Rightarrow> nat \<Rightarrow> block option"

text \<open>
  Go errors. The three messages built in the source files have a constructor each; an
  error that comes back from a collaborator is \<open>External\<close> with its message.
\<close>

datatype error =
    CannotReadBlock nat hash   \<comment> \<open>\<^verbatim>\<open>cannot read block at height %d with hash %s\<close>\<close>
  | TransactionFailed          \<comment> \<open>\<^verbatim>\<open>replayer: transaction failed\<close>\<close>
  | BackoffFailed              \<comment> \<open>\<^verbatim>\<open>utils: exponential backoff failed\<close>\<close>
  | External string

section \<open>The chain indexer: \<^verbatim>\<open>traverse\<close>\<close>

text \<open>
  The first loop of \<^verbatim>\<open>traverse\<close>. The height is a \<^verbatim>\<open>uint64\<close> that is only decremented
  under the guard \<^verbatim>\<open>blockHeight > 0\<close>, so it never wraps and is a \<open>nat\<close> here. The counter
  \<^verbatim>\<open>txCount\<close> and the \<^verbatim>\<open>log.Info\<close> lines do not reach the returned value and are left out.
\<close>

fun traverse_loop :: "database \<Rightarrow> block \<Rightarrow> nat \<Rightarrow> hash list \<Rightarrow> error + hash list" where
  "traverse_loop db b 0 blocks = Inr blocks"
| "traverse_loop db b (Suc blockHeight) blocks =
     (let blockHash = ParentHash b in
      case db blockHash blockHeight of
        None \<Rightarrow> Inl (CannotReadBlock blockHeight blockHash)
      | Some b' \<Rightarrow> traverse_loop db b' blockHeight (blocks @ [blockHash]))"

text \<open>
  The second loop swaps in place from both ends:
  \<^verbatim>\<open>for i, j := 0, len(blocks)-1; i < j; i, j = i+1, j-1\<close>. Both indices are Go \<^verbatim>\<open>int\<close>s; \<open>j\<close>
  starts at \<open>-1\<close> on the empty slice.
\<close>

function reverse_loop :: "'a list \<Rightarrow> int \<Rightarrow> int \<Rightarrow> 'a list" where
  "reverse_loop blocks i j =
     (if i < j
      then reverse_loop (blocks[nat i := blocks ! nat j, nat j := blocks ! nat i]) (i + 1) (j - 1)
      else blocks)"
  by pat_completeness auto
termination
  by (relation "measure (\<lambda>(blocks, i, j). nat (j - i))") auto

definition reverse_blocks :: "'a list \<Rightarrow> 'a list" where
  "reverse_blocks blocks = reverse_loop blocks 0 (int (length blocks) - 1)"

definition traverse :: "database \<Rightarrow> block \<Rightarrow> nat \<Rightarrow> error + hash list" where
  "traverse db b blockHeight =
     (case traverse_loop db b blockHeight [] of
        Inl e \<Rightarrow> Inl e
      | Inr blocks \<Rightarrow> Inr (reverse_blocks blocks))"

text \<open>
  What the claims call a valid parent-pointer chain: from the block \<open>b\<close> at height \<open>H\<close>,
  every parent is stored under its hash at the height below, down to height 0.
\<close>

fun valid_chain :: "database \<Rightarrow> block \<Rightarrow> nat \<Rightarrow> bool" where
  "valid_chain db b 0 = True"
| "valid_chain db b (Suc n) =
     (case db (ParentHash b) n of None \<Rightarrow> False | Some p \<Rightarrow> valid_chain db p n)"

text \<open>The blocks below \<open>b\<close>, lowest first, as the database returns them.\<close>

fun ancestors :: "database \<Rightarrow> block \<Rightarrow> nat \<Rightarrow> block list" where
  "ancestors db b 0 = []"
| "ancestors db b (Suc n) =
     (case db (ParentHash b) n of None \<Rightarrow> [] | Some p \<Rightarrow> ancestors db p n @ [p])"

text \<open>A hash names one block: it is stored at one height only.\<close>

definition hash_identifies :: "database \<Rightarrow> bool" where
  "hash_identifies db \<longleftrightarrow> (\<forall>h m n. db h m \<noteq> None \<and> db h n \<noteq> None \<longrightarrow> m = n)"

text \<open>The hashes that \<^verbatim>\<open>traverse\<close> is to return, lowest height first.\<close>

fun parent_hashes :: "database \<Rightarrow> block \<Rightarrow> nat \<Rightarrow> hash list" where
  "parent_hashes db b 0 = []"
| "parent_hashes db b (Suc n) =
     (case db (ParentHash b) n of
        None \<Rightarrow> []
      | Some p \<Rightarrow> parent_hashes db p n @ [ParentHash b])"

text \<open>A chain of three stored blocks below a block at height 3.\<close>

definition example_db :: database where
  "example_db h n =
     (if h = 10 \<and> n = 0 then Some \<lparr>ParentHash = 0, Transactions = []\<rparr>
      else if h = 11 \<and> n = 1 then Some \<lparr>ParentHash = 10, Transactions = []\<rparr>
      else if h = 12 \<and> n = 2 then Some \<lparr>ParentHash = 11, Transactions = []\<rparr>
      else None)"

definition example_head :: block where
  "example_head = \<lparr>ParentHash = 12, Transactions = []\<rparr>"

section \<open>Steps and configuration\<close>

text \<open>
  A comment is a format string with its arguments. Each \<^verbatim>\<open>fmt.Sprintf\<close> of
  \<^verbatim>\<open>startTxGenerator\<close> has a constructor; \<open>Text\<close> holds the comment of a step that a
  collaborator built, and \<open>Text ''''\<close> is the empty comment.
\<close>

datatype comment =
    Text string
  | BreakingBlock nat            \<comment> \<open>\<^verbatim>\<open>breaking block %d\<close>\<close>
  | SkippingBlock nat            \<comment> \<open>\<^verbatim>\<open>skipping block %d\<close>\<close>
  | BeginBlockSkipped nat        \<comment> \<open>\<^verbatim>\<open>begin_block() skipped for empty block %d\<close>\<close>
  | BreakingTx nat nat           \<comment> \<open>\<^verbatim>\<open>breaking at transaction %d (in block %d)\<close>\<close>
  | SkippingTx nat nat           \<comment> \<open>\<^verbatim>\<open>skipping transaction %d (in block %d)\<close>\<close>
  | SubmitComment nat nat nat string
      \<comment> \<open>\<^verbatim>\<open>submit(%d, tx=%d, tx_size=%d, gas=%s)\<close>: height, index, size, amount\<close>

text \<open>
  The struct \<^verbatim>\<open>Tx\<close> is declared outside the source files; these are the fields that
  \<^verbatim>\<open>startTxGenerator\<close> and \<^verbatim>\<open>Replay\<close> write and read.
\<close>

record Tx =
  Comment :: comment
  MethodName :: string
  Args :: bytes
  EthTx :: "transaction option"
  Error :: "error option"

definition comment_step :: "comment \<Rightarrow> Tx" where
  "comment_step c = \<lparr>Comment = c, MethodName = '''', Args = [], EthTx = None, Error = None\<rparr>"

definition error_step :: "error \<Rightarrow> Tx" where
  "error_step e =
     \<lparr>Comment = Text '''', MethodName = '''', Args = [], EthTx = None, Error = Some e\<rparr>"

text \<open>
  Modelled from the spec: \<^verbatim>\<open>beginChainTx\<close> and \<^verbatim>\<open>beginBlockTx\<close> are not in the source
  files. The specification has them produce Submission steps, a method name with its
  arguments, that carry no back-reference to a source transaction.
\<close>

record call_step =
  step_comment :: string
  step_method :: string
  step_args :: bytes

definition submission_of :: "call_step \<Rightarrow> Tx" where
  "submission_of c =
     \<lparr>Comment = Text (step_comment c), MethodName = step_method c, Args = step_args c,
      EthTx = None, Error = None\<rparr>"

text \<open>The fields of \<^verbatim>\<open>Replayer\<close> that the generator and the consumer read.\<close>

record replayer =
  Gas :: uint64
  Skip :: bool
  Batch :: bool
  BatchSize :: go_int
  StartBlock :: go_int
  StartTx :: go_int
  BreakBlock :: go_int
  BreakTx :: go_int

text \<open>
  A response of the NEAR node, \<^verbatim>\<open>map[string]interface{}\<close> decoded from JSON. A Go map
  has one value per key; \<open>map_of\<close> reads the association list.
\<close>

datatype json =
    JNull
  | JBool bool
  | JNumber string
  | JString string
  | JArray "json list"
  | JObject "(string \<times> json) list"

type_synonym payload = "(string \<times> json) list"

text \<open>\<^verbatim>\<open>near.Action\<close> with its embedded \<^verbatim>\<open>near.FunctionCall\<close>.\<close>

record action =
  Enum :: nat
  fc_MethodName :: string
  fc_Args :: bytes
  fc_Gas :: uint64
  fc_Deposit :: int

text \<open>The two submissions that \<^verbatim>\<open>Replay\<close> makes on the account, with their arguments.\<close>

datatype call =
    FunctionCall string string bytes uint64 int
  | SignAndSendTransaction string "action list"

text \<open>
  The collaborators. The account answers a call knowing the calls made before it.
  \<open>FormatNearAmount\<close> stands for
  \<^verbatim>\<open>utils.FormatNearAmount(strconv.FormatUint(x, 10))\<close>.
\<close>

record 'ctx collaborators =
  ReadBlock :: database
  getBlockContext :: "block \<Rightarrow> error + 'ctx"
  beginBlockTx :: "uint64 \<Rightarrow> 'ctx \<Rightarrow> call_step"
  beginChainTx :: call_step
  MarshalBinary :: "transaction \<Rightarrow> error + bytes"
  FormatNearAmount :: "uint64 \<Rightarrow> error + string"
  MarshalIndent :: "payload \<Rightarrow> error + string"
  Account :: "call list \<Rightarrow> call \<Rightarrow> error + payload"

datatype panic =
    DivideByZero          \<comment> \<open>integer divide by zero\<close>
  | InterfaceConversion   \<comment> \<open>failed type assertion\<close>
  | SizeOutOfRange        \<comment> \<open>\<^verbatim>\<open>make\<close> with a negative size\<close>
  | PanicError error      \<comment> \<open>\<^verbatim>\<open>panic(err)\<close>\<close>

section \<open>The step generator: \<^verbatim>\<open>startTxGenerator\<close>\<close>

text \<open>
  The goroutine sends its steps in order on one channel with one receiver, so the stream
  is the list of the steps sent, together with how the goroutine ended.
\<close>

datatype exit =
    Next             \<comment> \<open>the loop ran to its end\<close>
  | Break            \<comment> \<open>\<^verbatim>\<open>break\<close> or \<^verbatim>\<open>break outer\<close>\<close>
  | Return           \<comment> \<open>\<^verbatim>\<open>return\<close> after an Error step\<close>
  | Panic panic

datatype gen_end =
    Closed           \<comment> \<open>\<^verbatim>\<open>close(c)\<close> was reached\<close>
  | LeftOpen         \<comment> \<open>the goroutine returned and never closed the channel\<close>
  | Crashed panic

fun emit :: "Tx \<Rightarrow> Tx list \<times> exit \<Rightarrow> Tx list \<times> exit" where
  "emit s (steps, e) = (s # steps, e)"

text \<open>The quotient \<^verbatim>\<open>r.Gas/uint64(r.BatchSize)\<close>; the division panics on zero.\<close>

definition gas_share :: "replayer \<Rightarrow> panic + uint64" where
  "gas_share r = (if BatchSize r = 0 then Inl DivideByZero else Inr (Gas r div BatchSize r))"

text \<open>The inner loop, \<^verbatim>\<open>for i, tx := range b.Transactions()\<close>.\<close>

fun tx_loop ::
  "replayer \<Rightarrow> 'ctx collaborators \<Rightarrow> nat \<Rightarrow> nat \<Rightarrow> transaction list \<Rightarrow> Tx list \<times> exit" where
  "tx_loop r env blockHeight i [] = ([], Next)"
| "tx_loop r env blockHeight i (tx # txs) =
     (if BreakBlock r \<noteq> 0 \<and> int blockHeight = sint (BreakBlock r) \<and> int i = sint (BreakTx r)
      then ([comment_step (BreakingTx i blockHeight)], Break)
      else if int blockHeight = sint (StartBlock r) \<and> int i < sint (StartTx r)
      then emit (comment_step (SkippingTx i blockHeight)) (tx_loop r env blockHeight (Suc i) txs)
      else
        case MarshalBinary env tx of
          Inl err \<Rightarrow> ([error_step err], Return)
        | Inr rlp \<Rightarrow>
            (case gas_share r of
               Inl p \<Rightarrow> ([], Panic p)
             | Inr share \<Rightarrow>
                 (case FormatNearAmount env share of
                    Inl err \<Rightarrow> ([error_step err], Return)
                  | Inr amount \<Rightarrow>
                      emit \<lparr>Comment = SubmitComment blockHeight i (length rlp) amount,
                            MethodName = ''submit'', Args = rlp, EthTx = Some tx, Error = None\<rparr>
                        (tx_loop r env blockHeight (Suc i) txs))))"

text \<open>The first step of a block that is read: \<^verbatim>\<open>begin_block\<close>, or a comment.\<close>

definition begin_step :: "replayer \<Rightarrow> 'ctx collaborators \<Rightarrow> nat \<Rightarrow> block \<Rightarrow> 'ctx \<Rightarrow> Tx" where
  "begin_step r env blockHeight b ctx =
     (if \<not> Skip r \<or> length (Transactions b) > 0
      then submission_of (beginBlockTx env (Gas r) ctx)
      else comment_step (BeginBlockSkipped blockHeight))"

text \<open>The outer loop, \<^verbatim>\<open>for blockHeight, blockHash := range blocks\<close>.\<close>

fun block_loop ::
  "replayer \<Rightarrow> 'ctx collaborators \<Rightarrow> nat \<Rightarrow> hash list \<Rightarrow> Tx list \<times> exit" where
  "block_loop r env blockHeight [] = ([], Next)"
| "block_loop r env blockHeight (blockHash # blocks) =
     (if BreakBlock r \<noteq> 0 \<and> BreakTx r = 0 \<and> int blockHeight = sint (BreakBlock r)
      then ([comment_step (BreakingBlock blockHeight)], Break)
      else if int blockHeight < sint (StartBlock r)
      then emit (comment_step (SkippingBlock blockHeight))
             (block_loop r env (Suc blockHeight) blocks)
      else
        case ReadBlock env blockHash blockHeight of
          None \<Rightarrow> ([error_step (CannotReadBlock blockHeight blockHash)], Return)
        | Some b \<Rightarrow>
            (case getBlockContext env b of
               Inl err \<Rightarrow> ([error_step err], Return)
             | Inr ctx \<Rightarrow>
                 (case tx_loop r env blockHeight 0 (Transactions b) of
                    (steps, Next) \<Rightarrow>
                      (case block_loop r env (Suc blockHeight) blocks of
                         (rest, e) \<Rightarrow> (begin_step r env blockHeight b ctx # steps @ rest, e))
                  | (steps, e) \<Rightarrow> (begin_step r env blockHeight b ctx # steps, e))))"

text \<open>
  \<^verbatim>\<open>make(chan *Tx, 10*r.BatchSize)\<close>: the product wraps in \<^verbatim>\<open>int\<close>, and a negative size
  panics. The limits of the allocator are not part of the model.
\<close>

definition chan_capacity :: "replayer \<Rightarrow> panic + nat" where
  "chan_capacity r =
     (let n = 10 * BatchSize r in if sint n < 0 then Inl SizeOutOfRange else Inr (nat (sint n)))"

definition end_of :: "exit \<Rightarrow> gen_end" where
  "end_of e = (case e of Next \<Rightarrow> Closed | Break \<Rightarrow> Closed | Return \<Rightarrow> LeftOpen | Panic p \<Rightarrow> Crashed p)"

definition startTxGenerator ::
  "replayer \<Rightarrow> 'ctx collaborators \<Rightarrow> hash list \<Rightarrow> Tx list \<times> gen_end" where
  "startTxGenerator r env blocks =
     (case chan_capacity r of
        Inl p \<Rightarrow> ([], Crashed p)
      | Inr capacity \<Rightarrow>
          (case block_loop r env 0 blocks of
             (steps, e) \<Rightarrow> (submission_of (beginChainTx env) # steps, end_of e)))"

text \<open>
  How \<^verbatim>\<open>Replay\<close> reads a step: an Error step has \<^verbatim>\<open>tx.Error != nil\<close>, a Submission step
  has a method name, anything else is a comment.
\<close>

definition is_submission :: "Tx \<Rightarrow> bool" where
  "is_submission s \<longleftrightarrow> Error s = None \<and> MethodName s \<noteq> ''''"

definition is_comment :: "Tx \<Rightarrow> bool" where
  "is_comment s \<longleftrightarrow> Error s = None \<and> MethodName s = ''''"

text \<open>
  The source transaction that a Submission step submits: block height and index, as its
  comment \<^verbatim>\<open>submit(%d, tx=%d, ...)\<close> names them.
\<close>

definition submitted_tx :: "Tx \<Rightarrow> (nat \<times> nat) option" where
  "submitted_tx s =
     (case Comment s of
        SubmitComment h i n a \<Rightarrow> if is_submission s then Some (h, i) else None
      | _ \<Rightarrow> None)"

text \<open>The position \<open>(h, i)\<close> lies before the start point of the cursor.\<close>

definition before_start :: "replayer \<Rightarrow> nat \<Rightarrow> nat \<Rightarrow> bool" where
  "before_start r h i \<longleftrightarrow>
     int h < sint (StartBlock r) \<or> (int h = sint (StartBlock r) \<and> int i < sint (StartTx r))"

text \<open>The position \<open>(h, i)\<close> lies before the break point of the cursor.\<close>

definition before_break :: "replayer \<Rightarrow> nat \<Rightarrow> nat \<Rightarrow> bool" where
  "before_break r h i \<longleftrightarrow>
     int h < sint (BreakBlock r) \<or> (int h = sint (BreakBlock r) \<and> int i < sint (BreakTx r))"

text \<open>
  The break point is one that the loops test for, seen from the block at height \<open>k\<close> with
  the hashes \<open>hs\<close> still to walk: the break is at a whole block; or the break block
  lies beyond the list; or the break block is not skipped and, when it can be read, holds a
  transaction with the index \<open>BreakTx\<close>.
\<close>

definition break_ahead :: "replayer \<Rightarrow> 'ctx collaborators \<Rightarrow> nat \<Rightarrow> hash list \<Rightarrow> bool" where
  "break_ahead r env k hs \<longleftrightarrow>
     (let B = nat (sint (BreakBlock r)) in
      if BreakTx r = 0 \<or> length hs \<le> B - k then True
      else sint (StartBlock r) \<le> sint (BreakBlock r) \<and> 0 < sint (BreakTx r) \<and>
           (case ReadBlock env (hs ! (B - k)) B of
              None \<Rightarrow> True
            | Some b \<Rightarrow> sint (BreakTx r) < int (length (Transactions b))))"

definition break_visited :: "replayer \<Rightarrow> 'ctx collaborators \<Rightarrow> hash list \<Rightarrow> bool" where
  "break_visited r env blocks = break_ahead r env 0 blocks"

text \<open>The comment that announces the break.\<close>

definition break_comment :: "replayer \<Rightarrow> comment" where
  "break_comment r =
     (if BreakTx r = 0 then BreakingBlock (nat (sint (BreakBlock r)))
      else BreakingTx (nat (sint (BreakTx r))) (nat (sint (BreakBlock r))))"

text \<open>
  A chain for the examples: three blocks at heights 0 to 2 under the hashes 10, 11 and 12;
  block 1 holds two transactions and block 2 one. Every collaborator succeeds.
\<close>

definition example_tx :: "nat \<Rightarrow> transaction" where
  "example_tx n =
     \<lparr>Nonce = of_nat n, GasPrice = 1, Gas_limit = 21000, To = None, Value = 0, Data = []\<rparr>"

definition example_chain :: database where
  "example_chain h n =
     (if h = 10 \<and> n = 0 then Some \<lparr>ParentHash = 0, Transactions = []\<rparr>
      else if h = 11 \<and> n = 1
        then Some \<lparr>ParentHash = 10, Transactions = [example_tx 0, example_tx 1]\<rparr>
      else if h = 12 \<and> n = 2 then Some \<lparr>ParentHash = 11, Transactions = [example_tx 2]\<rparr>
      else None)"

definition ok_payload :: payload where
  "ok_payload = [(''status'', JObject [(''SuccessValue'', JString '''')])]"

definition example_env :: "unit collaborators" where
  "example_env =
     \<lparr>ReadBlock = example_chain,
      getBlockContext = (\<lambda>b. Inr ()),
      beginBlockTx = (\<lambda>g c. \<lparr>step_comment = ''begin_block'', step_method = ''begin_block'',
                              step_args = []\<rparr>),
      beginChainTx = \<lparr>step_comment = ''begin_chain'', step_method = ''begin_chain'',
                       step_args = []\<rparr>,
      MarshalBinary = (\<lambda>t. Inr [ucast (Nonce t)]),
      FormatNearAmount = (\<lambda>g. Inr ''gas''),
      MarshalIndent = (\<lambda>p. Inr ''status''),
      Account = (\<lambda>before c. Inr ok_payload)\<rparr>"

definition example_replayer :: replayer where
  "example_replayer =
     \<lparr>Gas = 300, Skip = False, Batch = False, BatchSize = 2,
      StartBlock = 0, StartTx = 0, BreakBlock = 0, BreakTx = 0\<rparr>"

text \<open>A cursor that starts at the second transaction of block 1.\<close>

definition late_start :: replayer where
  "late_start = example_replayer\<lparr>StartBlock := 1, StartTx := 1\<rparr>"

text \<open>
  A break point that names no transaction of the chain: block 1 has two transactions, and
  the cursor asks to break at its sixth.
\<close>

definition missed_break :: replayer where
  "missed_break = example_replayer\<lparr>BreakBlock := 1, BreakTx := 5\<rparr>"

text \<open>A cursor that breaks at the second transaction of block 1.\<close>

definition early_break :: replayer where
  "early_break = example_replayer\<lparr>BreakBlock := 1, BreakTx := 1\<rparr>"

section \<open>The result verifier: \<^verbatim>\<open>procTxResult\<close>\<close>

text \<open>
  What the program prints, one constructor for each \<^verbatim>\<open>fmt.Println\<close> and \<^verbatim>\<open>fmt.Printf\<close>,
  with the values that it formats.
\<close>

datatype line =
    PrintComment comment       \<comment> \<open>\<^verbatim>\<open>fmt.Println(tx.Comment)\<close>\<close>
  | PrintBatching comment      \<comment> \<open>\<^verbatim>\<open>"batching: " + tx.Comment\<close>\<close>
  | RunningBatch               \<comment> \<open>\<^verbatim>\<open>running batch\<close>\<close>
  | RunningLastBatch           \<comment> \<open>\<^verbatim>\<open>running last batch\<close>\<close>
  | TransactionId string       \<comment> \<open>\<^verbatim>\<open>Transaction Id %s\<close>\<close>
  | PrintStatus string         \<comment> \<open>\<^verbatim>\<open>fmt.Println(string(jsn))\<close>\<close>
  | TransactionColon           \<comment> \<open>\<^verbatim>\<open>transaction:\<close>\<close>
  | PrintHex bytes             \<comment> \<open>\<^verbatim>\<open>"0x" + hex.EncodeToString(...)\<close>\<close>
  | PrintNonce uint64          \<comment> \<open>\<^verbatim>\<open>nonce: %d\<close>\<close>
  | PrintGasPrice int          \<comment> \<open>\<^verbatim>\<open>gasPrice: %s\<close>\<close>
  | PrintGasLimit uint64       \<comment> \<open>\<^verbatim>\<open>gasLimit: %d\<close>\<close>
  | PrintTo "160 word"         \<comment> \<open>\<^verbatim>\<open>to: 0x%s\<close>\<close>
  | PrintContractCreation      \<comment> \<open>\<^verbatim>\<open>to: contract creation\<close>\<close>
  | PrintValue int             \<comment> \<open>\<^verbatim>\<open>value: %s\<close>\<close>
  | DataColon                  \<comment> \<open>\<^verbatim>\<open>data:\<close>\<close>
  | PrintError error           \<comment> \<open>\<^verbatim>\<open>fmt.Println(err)\<close>\<close>

text \<open>How a call ends when it does not return normally.\<close>

datatype abort =
    Returned error     \<comment> \<open>a non-nil \<^verbatim>\<open>error\<close> is returned\<close>
  | Panicked panic
  | Deadlock           \<comment> \<open>receiving on a channel that nobody sends on or closes\<close>

text \<open>
  \<^verbatim>\<open>getTxnId\<close> and \<^verbatim>\<open>prettyPrintResponse\<close> of \<^verbatim>\<open>command/util.go\<close>; \<^verbatim>\<open>procTxResult\<close> calls
  the copy of the latter in the package \<^verbatim>\<open>utils\<close>. A failed type assertion in the
  comma-ok form gives \<^verbatim>\<open>ok == false\<close>.
\<close>

definition getTxnId :: "payload \<Rightarrow> string" where
  "getTxnId res =
     (case map_of res ''transaction'' of
        Some (JObject tx) \<Rightarrow>
          (case map_of tx ''hash'' of Some (JString hash) \<Rightarrow> hash | _ \<Rightarrow> '''')
      | _ \<Rightarrow> '''')"

definition prettyPrintResponse :: "payload \<Rightarrow> line list" where
  "prettyPrintResponse res =
     (let txnId = getTxnId res in if txnId \<noteq> '''' then [TransactionId txnId] else [])"

text \<open>\<^verbatim>\<open>showTx\<close>: it panics before printing when the transaction cannot be encoded.\<close>

definition showTx :: "'ctx collaborators \<Rightarrow> transaction \<Rightarrow> panic + line list" where
  "showTx env tx =
     (case MarshalBinary env tx of
        Inl err \<Rightarrow> Inl (PanicError err)
      | Inr rlp \<Rightarrow>
          Inr ([TransactionColon, PrintHex rlp, PrintNonce (Nonce tx), PrintGasPrice (GasPrice tx),
                PrintGasLimit (Gas_limit tx)] @
               (case To tx of Some addr \<Rightarrow> [PrintTo addr] | None \<Rightarrow> [PrintContractCreation]) @
               [PrintValue (Value tx)] @
               (if length (Data tx) > 0 then [DataColon, PrintHex (Data tx)] else [])))"

text \<open>\<^verbatim>\<open>status["Failure"] != nil\<close>: the key is there and its value is not \<^verbatim>\<open>null\<close>.\<close>

definition has_failure :: "payload \<Rightarrow> bool" where
  "has_failure status =
     (case map_of status ''Failure'' of None \<Rightarrow> False | Some JNull \<Rightarrow> False | Some v \<Rightarrow> True)"

text \<open>
  \<^verbatim>\<open>procTxResult\<close>, with what it prints and how it ends. The type assertion
  \<^verbatim>\<open>txResult["status"].(map[string]interface{})\<close> has no comma-ok form and panics when it
  fails.
\<close>

definition procTxResult ::
  "'ctx collaborators \<Rightarrow> bool \<Rightarrow> transaction option \<Rightarrow> payload \<Rightarrow> line list \<times> (abort + unit)" where
  "procTxResult env batch tx txResult =
     (let printed = prettyPrintResponse txResult in
      case map_of txResult ''status'' of
        Some (JObject status) \<Rightarrow>
          (case MarshalIndent env status of
             Inl err \<Rightarrow> (printed, Inl (Returned err))
           | Inr jsn \<Rightarrow>
               if has_failure status then
                 (case (if \<not> batch then tx else None) of
                    Some t \<Rightarrow>
                      (case showTx env t of
                         Inl p \<Rightarrow> (printed @ [PrintStatus jsn], Inl (Panicked p))
                       | Inr shown \<Rightarrow>
                           (printed @ [PrintStatus jsn] @ shown, Inl (Returned TransactionFailed)))
                  | None \<Rightarrow> (printed @ [PrintStatus jsn], Inl (Returned TransactionFailed)))
               else (printed @ [PrintStatus jsn], Inr ()))
      | _ \<Rightarrow> (printed, Inl (Panicked InterfaceConversion)))"

section \<open>The consumer: the loop of \<^verbatim>\<open>Replay\<close>\<close>

text \<open>
  The state of the loop: the batch under construction, the calls made on the account so
  far, and the lines printed so far.
\<close>

record run =
  batch :: "action list"
  calls :: "call list"
  printed :: "line list"

definition print :: "line list \<Rightarrow> run \<Rightarrow> run" where
  "print ls s = s\<lparr>printed := printed s @ ls\<rparr>"

definition print_comment :: "(comment \<Rightarrow> line) \<Rightarrow> Tx \<Rightarrow> run \<Rightarrow> run" where
  "print_comment f tx s = (if Comment tx \<noteq> Text '''' then print [f (Comment tx)] s else s)"

text \<open>
  A call on the account, followed by \<^verbatim>\<open>procTxResult\<close> on its result. The state that is
  returned has recorded the call; \<open>reset\<close> says whether the batch is emptied after the call
  came back without error.
\<close>

definition submit ::
  "'ctx collaborators \<Rightarrow> bool \<Rightarrow> transaction option \<Rightarrow> bool \<Rightarrow> call \<Rightarrow> run \<Rightarrow> run \<times> abort option" where
  "submit env batching tx reset c s =
     (let s1 = s\<lparr>calls := calls s @ [c]\<rparr> in
      case Account env (calls s) c of
        Inl err \<Rightarrow> (s1, Some (Returned err))
      | Inr txResult \<Rightarrow>
          (let s2 = (if reset then s1\<lparr>batch := []\<rparr> else s1) in
           case procTxResult env batching tx txResult of
             (ls, Inl a) \<Rightarrow> (print ls s2, Some a)
           | (ls, Inr ok) \<Rightarrow> (print ls s2, None)))"

text \<open>The body of \<^verbatim>\<open>for tx := range c\<close>.\<close>

definition replay_step ::
  "replayer \<Rightarrow> 'ctx collaborators \<Rightarrow> string \<Rightarrow> run \<Rightarrow> Tx \<Rightarrow> run \<times> abort option" where
  "replay_step r env evmContract s tx =
     (case Error tx of
        Some err \<Rightarrow> (s, Some (Returned err))
      | None \<Rightarrow>
          if MethodName tx \<noteq> '''' then
            (if \<not> Batch r then
               submit env (Batch r) (EthTx tx) False
                 (FunctionCall evmContract (MethodName tx) (Args tx) (Gas r) 0)
                 (print_comment PrintComment tx s)
             else
               (let s1 = print_comment PrintBatching tx s in
                case gas_share r of
                  Inl p \<Rightarrow> (s1, Some (Panicked p))
                | Inr share \<Rightarrow>
                    (let s2 = s1\<lparr>batch := batch s1 @
                                 [\<lparr>Enum = 2, fc_MethodName = MethodName tx, fc_Args = Args tx,
                                   fc_Gas = share, fc_Deposit = 0\<rparr>]\<rparr>
                     in if int (length (batch s2)) = sint (BatchSize r)
                        then submit env (Batch r) (EthTx tx) True
                               (SignAndSendTransaction evmContract (batch s2))
                               (print [RunningBatch] s2)
                        else (s2, None))))
          else if Comment tx \<noteq> Text '''' then (print [PrintComment (Comment tx)] s, None)
          else (s, None))"

fun drain ::
  "replayer \<Rightarrow> 'ctx collaborators \<Rightarrow> string \<Rightarrow> run \<Rightarrow> Tx list \<Rightarrow> run \<times> abort option" where
  "drain r env evmContract s [] = (s, None)"
| "drain r env evmContract s (tx # stream) =
     (case replay_step r env evmContract s tx of
        (s', None) \<Rightarrow> drain r env evmContract s' stream
      | (s', Some a) \<Rightarrow> (s', Some a))"

text \<open>After the loop: \<^verbatim>\<open>process last batch, if not empty\<close>.\<close>

definition last_batch ::
  "replayer \<Rightarrow> 'ctx collaborators \<Rightarrow> string \<Rightarrow> run \<Rightarrow> run \<times> abort option" where
  "last_batch r env evmContract s =
     (if length (batch s) > 0
      then submit env (Batch r) None False (SignAndSendTransaction evmContract (batch s))
             (print [RunningLastBatch] s)
      else (s, None))"

definition start_run :: run where
  "start_run = \<lparr>batch = [], calls = [], printed = []\<rparr>"

text \<open>
  The loop and what follows it, on a stream and the way the generator ended. The loop
  leaves \<^verbatim>\<open>range c\<close> when the channel is closed; a crash of the goroutine ends the
  process; a channel left open after its last step blocks the receiver.
\<close>

definition consume ::
  "replayer \<Rightarrow> 'ctx collaborators \<Rightarrow> string \<Rightarrow> Tx list \<times> gen_end \<Rightarrow> run \<times> abort option" where
  "consume r env evmContract g =
     (case drain r env evmContract start_run (fst g) of
        (s, Some a) \<Rightarrow> (s, Some a)
      | (s, None) \<Rightarrow>
          (case snd g of
             Closed \<Rightarrow> last_batch r env evmContract s
           | LeftOpen \<Rightarrow> (s, Some Deadlock)
           | Crashed p \<Rightarrow> (s, Some (Panicked p))))"

text \<open>
  \<^verbatim>\<open>Replay\<close> from \<^verbatim>\<open>process transactions\<close> on, given the block list that \<^verbatim>\<open>openDB\<close>
  returned. \<^verbatim>\<open>make([]near.Action, 0, r.BatchSize)\<close> panics on a negative capacity. The
  result is \<open>None\<close> for \<^verbatim>\<open>return nil\<close>.
\<close>

definition Replay ::
  "replayer \<Rightarrow> 'ctx collaborators \<Rightarrow> string \<Rightarrow> hash list \<Rightarrow> run \<times> abort option" where
  "Replay r env evmContract blocks =
     (if sint (BatchSize r) < 0 then (start_run, Some (Panicked SizeOutOfRange))
      else consume r env evmContract (startTxGenerator r env blocks))"

section \<open>The retry helper: \<^verbatim>\<open>ExponentialBackoff\<close>\<close>




text \<open>The action that batch mode appends for a Submission step.\<close>

definition batched :: "replayer \<Rightarrow> Tx \<Rightarrow> action" where
  "batched r tx =
     \<lparr>Enum = 2, fc_MethodName = MethodName tx, fc_Args = Args tx,
      fc_Gas = Gas r div BatchSize r, fc_Deposit = 0\<rparr>"

definition batched_actions :: "replayer \<Rightarrow> Tx list \<Rightarrow> action list" where
  "batched_actions r stream = map (batched r) (filter is_submission stream)"

text \<open>
  The account accepts every call: it answers with a payload whose \<^verbatim>\<open>status\<close> is a map
  without a failure, and the status can be rendered.
\<close>

definition accepts_all :: "'ctx collaborators \<Rightarrow> bool" where
  "accepts_all env \<longleftrightarrow>
     (\<forall>before c. \<exists>res status jsn.
        Account env before c = Inr res \<and> map_of res ''status'' = Some (JObject status) \<and>
        \<not> has_failure status \<and> MarshalIndent env status = Inr jsn)"

text \<open>A stream for the examples: one call, a comment, an Error step, and a call after it.\<close>

definition boom :: error where
  "boom = External ''boom''"

definition stream_before_error :: "Tx list" where
  "stream_before_error = [submission_of (beginChainTx example_env), comment_step (SkippingBlock 0)]"

definition run_before_error :: run where
  "run_before_error =
     \<lparr>batch = [],
      calls = [FunctionCall ''evm'' ''begin_chain'' [] 300 0],
      printed = [PrintComment (Text ''begin_chain''), PrintStatus ''status'',
                 PrintComment (SkippingBlock 0)]\<rparr>"

text \<open>
  The grouping that the specification describes: a list cut into runs of \<open>n\<close> entries,
  and the shorter run that is left at the end.
\<close>

definition full_batches :: "nat \<Rightarrow> 'a list \<Rightarrow> 'a list list" where
  "full_batches n xs = map (\<lambda>k. take n (drop (k * n) xs)) [0..<length xs div n]"

definition remainder :: "nat \<Rightarrow> 'a list \<Rightarrow> 'a list" where
  "remainder n xs = drop ((length xs div n) * n) xs"

text \<open>The number of actions that a call submits.\<close>

fun submitted_size :: "call \<Rightarrow> nat" where
  "submitted_size (FunctionCall contract method args gas amount) = 1"
| "submitted_size (SignAndSendTransaction contract actions) = length actions"

definition grouped :: "nat \<Rightarrow> 'a list \<Rightarrow> 'a list list" where
  "grouped n xs = full_batches n xs @ (if remainder n xs = [] then [] else [remainder n xs])"

text \<open>Go's \<^verbatim>\<open>r.BatchSize\<close> as a number of entries.\<close>

definition batch_size :: "replayer \<Rightarrow> nat" where
  "batch_size r = nat (sint (BatchSize r))"

text \<open>Batch mode with batches of two, and a stream with three Submission steps.\<close>

definition batching :: replayer where
  "batching = example_replayer\<lparr>Batch := True\<rparr>"

definition three_submissions :: "Tx list" where
  "three_submissions =
     [submission_of (beginChainTx example_env),
      comment_step (SkippingBlock 0),
      submission_of (beginBlockTx example_env 300 ()),
      \<lparr>Comment = SubmitComment 1 0 1 ''gas'', MethodName = ''submit'', Args = [0],
       EthTx = Some (example_tx 0), Error = None\<rparr>]"

text \<open>
  The lines of \<^verbatim>\<open>showTx\<close> for a transaction with the encoding \<open>rlp\<close>: the encoding, the
  nonce, the gas price, the gas limit, the recipient or \<^verbatim>\<open>contract creation\<close>, the value, and
  the payload when there is one.
\<close>

definition decoded_lines :: "bytes \<Rightarrow> transaction \<Rightarrow> line list" where
  "decoded_lines rlp t =
     [TransactionColon, PrintHex rlp, PrintNonce (Nonce t), PrintGasPrice (GasPrice t),
      PrintGasLimit (Gas_limit t),
      (case To t of Some addr \<Rightarrow> PrintTo addr | None \<Rightarrow> PrintContractCreation),
      PrintValue (Value t)] @
     (if Data t = [] then [] else [DataColon, PrintHex (Data t)])"

text \<open>The answer that the account gave to call number \<open>k\<close> of a run.\<close>

definition answer :: "'ctx collaborators \<Rightarrow> run \<Rightarrow> nat \<Rightarrow> error + payload" where
  "answer env s k = Account env (take k (calls s)) (calls s ! k)"

text \<open>A payload whose status is a map that reports no failure.\<close>

definition reports_success :: "payload \<Rightarrow> bool" where
  "reports_success res =
     (case map_of res ''status'' of Some (JObject status) \<Rightarrow> \<not> has_failure status | _ \<Rightarrow> False)"

text \<open>Payloads for the examples: a failure, and one without status.\<close>

definition failed_payload :: payload where
  "failed_payload =
     [(''transaction'', JObject [(''hash'', JString ''0xabc'')]),
      (''status'', JObject [(''Failure'', JString ''out of gas'')])]"

definition bare_payload :: payload where
  "bare_payload = [(''transaction'', JObject [(''hash'', JString ''0xabc'')])]"





text \<open>
  The gas and the deposit that a call carries are the ones the code computes: the whole
  \<^verbatim>\<open>r.Gas\<close> for a single call, made only when batching is off, and
  \<^verbatim>\<open>r.Gas/uint64(r.BatchSize)\<close> for each action of a batch; no deposit in either.
\<close>

definition action_gas_ok :: "replayer \<Rightarrow> action \<Rightarrow> bool" where
  "action_gas_ok r a \<longleftrightarrow> fc_Gas a = Gas r div BatchSize r \<and> fc_Deposit a = 0"

fun call_gas_ok :: "replayer \<Rightarrow> call \<Rightarrow> bool" where
  "call_gas_ok r (FunctionCall contract method args gas amount) =
     (\<not> Batch r \<and> gas = Gas r \<and> amount = 0)"
| "call_gas_ok r (SignAndSendTransaction contract actions) = list_all (action_gas_ok r) actions"

text \<open>
  Some transaction of the chain lies at or after the start point of the cursor, in a block
  of the list.
\<close>

definition has_active_tx :: "replayer \<Rightarrow> 'ctx collaborators \<Rightarrow> hash list \<Rightarrow> bool" where
  "has_active_tx r env blocks \<longleftrightarrow>
     (\<exists>h<length blocks. sint (StartBlock r) \<le> int h \<and>
        (case ReadBlock env (blocks ! h) h of
           None \<Rightarrow> False
         | Some b \<Rightarrow> \<exists>i<length (Transactions b). \<not> before_start r h i))"

text \<open>No collaborator of the generator fails on this block list.\<close>

definition reads_succeed :: "'ctx collaborators \<Rightarrow> hash list \<Rightarrow> bool" where
  "reads_succeed env blocks \<longleftrightarrow>
     (\<forall>h<length blocks. ReadBlock env (blocks ! h) h \<noteq> None) \<and>
     (\<forall>b. \<not> isl (getBlockContext env b)) \<and> (\<forall>t. \<not> isl (MarshalBinary env t))"

text \<open>The example configuration with a batch size of zero; batching is off.\<close>

definition no_batch_size :: replayer where
  "no_batch_size = example_replayer\<lparr>BatchSize := 0\<rparr>"

text \<open>
  Nothing stops the generator: the channel can be made, the batch size is not zero, and no
  collaborator fails.
\<close>

definition generator_unhindered :: "replayer \<Rightarrow> 'ctx collaborators \<Rightarrow> hash list \<Rightarrow> bool" where
  "generator_unhindered r env blocks \<longleftrightarrow>
     BatchSize r \<noteq> 0 \<and> \<not> isl (chan_capacity r) \<and> reads_succeed env blocks \<and>
     (\<forall>g. \<not> isl (FormatNearAmount env g))"

section \<open>Properties of \<^verbatim>\<open>traverse\<close>\<close>

declare reverse_loop.simps [simp del]

lemma length_reverse_loop: "length (reverse_loop xs i j) = length xs"
proof (induction xs i j rule: reverse_loop.induct)
  case (1 blocks i j)
  then show ?case
    by (subst reverse_loop.simps) simp
qed

text \<open>
  Between the two indices the loop mirrors the slice, outside them it leaves it alone.
\<close>

lemma nth_reverse_loop:
  "0 \<le> i \<Longrightarrow> j < int (length xs) \<Longrightarrow> k < length xs \<Longrightarrow>
   reverse_loop xs i j ! k =
     (if i \<le> int k \<and> int k \<le> j then xs ! nat (i + j - int k) else xs ! k)"
proof (induction xs i j arbitrary: k rule: reverse_loop.induct)
  case (1 blocks i j)
  show ?case
  proof (cases "i < j")
    case False
    then have "reverse_loop blocks i j = blocks"
      by (subst reverse_loop.simps) simp
    moreover have "i \<le> int k \<and> int k \<le> j \<Longrightarrow> nat (i + j - int k) = k"
      using False by auto
    ultimately show ?thesis by auto
  next
    case True
    let ?ys = "blocks[nat i := blocks ! nat j, nat j := blocks ! nat i]"
    have step: "reverse_loop blocks i j = reverse_loop ?ys (i + 1) (j - 1)"
      using True by (subst reverse_loop.simps) simp
    have ih: "reverse_loop ?ys (i + 1) (j - 1) ! k =
      (if i + 1 \<le> int k \<and> int k \<le> j - 1 then ?ys ! nat (i + 1 + (j - 1) - int k) else ?ys ! k)"
      using "1.IH"[OF True, of k] "1.prems" by simp
    show ?thesis
      unfolding step ih using True "1.prems"
      by (auto simp: nth_list_update nat_eq_iff)
  qed
qed

lemma reverse_blocks_rev: "reverse_blocks xs = rev xs"
  unfolding reverse_blocks_def
  by (rule nth_equalityI) (auto simp: length_reverse_loop nth_reverse_loop rev_nth nat_diff_distrib)

lemma traverse_loop_collects:
  "valid_chain db b n \<Longrightarrow> traverse_loop db b n acc = Inr (acc @ rev (parent_hashes db b n))"
  by (induction n arbitrary: b acc) (auto split: option.splits)

lemma traverse_loop_fails:
  "\<not> valid_chain db b n \<Longrightarrow> \<exists>k h. traverse_loop db b n acc = Inl (CannotReadBlock k h)"
  by (induction n arbitrary: b acc) (auto split: option.splits)

lemma length_parent_hashes: "valid_chain db b n \<Longrightarrow> length (parent_hashes db b n) = n"
  by (induction n arbitrary: b) (auto split: option.splits)

lemma length_ancestors: "valid_chain db b n \<Longrightarrow> length (ancestors db b n) = n"
  by (induction n arbitrary: b) (auto split: option.splits)

lemma parent_hashes_stored:
  "valid_chain db b n \<Longrightarrow> i < n \<Longrightarrow>
   db (parent_hashes db b n ! i) i = Some (ancestors db b n ! i) \<and>
   parent_hashes db b n ! i = ParentHash ((ancestors db b n @ [b]) ! Suc i)"
proof (induction n arbitrary: b i)
  case 0
  then show ?case by simp
next
  case (Suc n)
  from Suc.prems(1) obtain p where p: "db (ParentHash b) n = Some p" and vp: "valid_chain db p n"
    by (auto split: option.splits)
  let ?hs = "parent_hashes db p n" and ?bs = "ancestors db p n"
  have lh: "length ?hs = n" and lb: "length ?bs = n"
    using vp by (simp_all add: length_parent_hashes length_ancestors)
  have unfold: "parent_hashes db b (Suc n) = ?hs @ [ParentHash b]"
    "ancestors db b (Suc n) = ?bs @ [p]"
    using p by simp_all
  show ?case
  proof (cases "i < n")
    case True
    have "(?hs @ [ParentHash b]) ! i = ?hs ! i" "(?bs @ [p]) ! i = ?bs ! i"
      using True lh lb by (simp_all add: nth_append_left)
    moreover have "((?bs @ [p]) @ [b]) ! Suc i = (?bs @ [p]) ! Suc i"
      using True lb by (intro nth_append_left) simp
    moreover from Suc.IH[OF vp True]
    have "db (?hs ! i) i = Some (?bs ! i)" "?hs ! i = ParentHash ((?bs @ [p]) ! Suc i)"
      by blast+
    ultimately show ?thesis
      unfolding unfold by (simp only:)
  next
    case False
    with Suc.prems(2) have "i = n" by simp
    then have "(?hs @ [ParentHash b]) ! i = ParentHash b" "(?bs @ [p]) ! i = p"
      "((?bs @ [p]) @ [b]) ! Suc i = b"
      using lh lb by (simp_all add: nth_append)
    then show ?thesis
      unfolding unfold using p \<open>i = n\<close> by (simp only:)
  qed
qed

lemma stored_heights_distinct:
  assumes "hash_identifies db" and "\<forall>i<length hs. db (hs ! i) i \<noteq> None"
  shows "distinct hs"
  unfolding distinct_conv_nth
proof (intro allI impI)
  fix i j
  assume "i < length hs" "j < length hs" "i \<noteq> j"
  with assms(2) have "db (hs ! i) i \<noteq> None" "db (hs ! j) j \<noteq> None" by auto
  with assms(1) \<open>i \<noteq> j\<close> show "hs ! i \<noteq> hs ! j"
    unfolding hash_identifies_def by metis
qed

text \<open>
  Claim C1. When the block \<open>b\<close> at height \<open>H\<close> has a valid parent-pointer chain down to
  genesis, \<^verbatim>\<open>traverse\<close> returns a list of exactly \<open>H\<close> hashes. Entry \<open>i\<close> is the hash under
  which the block of height \<open>i\<close> is stored and is the parent hash read from the block one
  height above (from \<open>b\<close> itself for the last entry), so the list runs over the heights
  \<open>0, \<dots>, H - 1\<close> in ascending order. It is the reversal of what the first loop collected
  while walking down. Since a hash names one block, no hash occurs twice.
\<close>

theorem traverse_ascending:
  assumes "valid_chain db b H"
  shows "\<exists>hs. traverse db b H = Inr hs \<and> traverse_loop db b H [] = Inr (rev hs) \<and>
           length hs = H \<and>
           (\<forall>i<H. db (hs ! i) i = Some (ancestors db b H ! i) \<and>
                  hs ! i = ParentHash ((ancestors db b H @ [b]) ! Suc i)) \<and>
           (hash_identifies db \<longrightarrow> distinct hs)"
proof -
  let ?hs = "parent_hashes db b H"
  have loop: "traverse_loop db b H [] = Inr (rev ?hs)"
    using traverse_loop_collects[OF assms, of "[]"] by simp
  have res: "traverse db b H = Inr ?hs"
    by (simp add: traverse_def loop reverse_blocks_rev)
  have len: "length ?hs = H"
    by (rule length_parent_hashes[OF assms])
  have stored: "\<forall>i<H. db (?hs ! i) i = Some (ancestors db b H ! i) \<and>
                  ?hs ! i = ParentHash ((ancestors db b H @ [b]) ! Suc i)"
    using parent_hashes_stored[OF assms] by blast
  have "hash_identifies db \<longrightarrow> distinct ?hs"
  proof
    assume "hash_identifies db"
    moreover have "\<forall>i<length ?hs. db (?hs ! i) i \<noteq> None"
      using stored len by (metis option.distinct(1))
    ultimately show "distinct ?hs"
      by (rule stored_heights_distinct)
  qed
  with loop res len stored show ?thesis by auto
qed

lemma example_db_identifies: "hash_identifies example_db"
  by (auto simp: hash_identifies_def example_db_def split: if_splits)

lemma example_valid: "valid_chain example_db example_head 3"
  by (simp add: example_db_def example_head_def numeral_3_eq_3)

theorem traverse_ascending_witness:
  "valid_chain example_db example_head 3 \<and> hash_identifies example_db \<and>
   (\<exists>hs. traverse example_db example_head 3 = Inr hs \<and> length hs = 3 \<and> distinct hs \<and>
      example_db (hs ! 0) 0 \<noteq> None)"
  using traverse_ascending[OF example_valid] example_db_identifies example_valid by fastforce

section \<open>Properties of the step generator\<close>

lemma submitted_tx_simps [simp]:
  "submitted_tx (comment_step c) = None"
  "submitted_tx (error_step e) = None"
  "submitted_tx (submission_of cs) = None"
  "submitted_tx \<lparr>Comment = SubmitComment h i n a, MethodName = ''submit'', Args = x,
      EthTx = t, Error = None\<rparr> = Some (h, i)"
  by (simp_all add: submitted_tx_def comment_step_def error_step_def submission_of_def
      is_submission_def split: comment.splits)

lemma set_emit: "fst (emit s p) = s # fst p" "snd (emit s p) = snd p"
  by (cases p; simp)+

text \<open>Inner loop without a break point.\<close>

lemma tx_loop_submitted:
  assumes "tx_loop r env h i txs = (steps, e)" and "s \<in> set steps"
    and "submitted_tx s = Some (h', i')"
  shows "h' = h \<and> i \<le> i' \<and> i' < i + length txs \<and>
         \<not> (int h = sint (StartBlock r) \<and> int i' < sint (StartTx r)) \<and>
         EthTx s = Some (txs ! (i' - i))"
  using assms
proof (induction txs arbitrary: i steps e)
  case Nil
  then show ?case by simp
next
  case (Cons tx txs)
  show ?case
  proof (cases "tx_loop r env h (Suc i) txs")
    case (Pair steps' e')
    note ih = Cons.IH[OF Pair]
    from Cons.prems Pair ih show ?thesis
      by (fastforce simp: nth_Cons' split: if_splits sum.splits)
  qed
qed

lemma tx_loop_complete:
  assumes "tx_loop r env h i txs = (steps, Next)" and "j < length txs"
  shows "if int h = sint (StartBlock r) \<and> int (i + j) < sint (StartTx r)
         then comment_step (SkippingTx (i + j) h) \<in> set steps
         else \<exists>s\<in>set steps. submitted_tx s = Some (h, i + j) \<and> EthTx s = Some (txs ! j)"
  using assms
proof (induction txs arbitrary: i j steps)
  case Nil
  then show ?case by simp
next
  case (Cons tx txs)
  obtain steps' e' where rest: "tx_loop r env h (Suc i) txs = (steps', e')"
    by (cases "tx_loop r env h (Suc i) txs")
  show ?case
  proof (cases j)
    case 0
    with Cons.prems rest show ?thesis
      by (auto split: if_splits sum.splits)
  next
    case (Suc j')
    with Cons.prems(2) have j': "j' < length txs" by simp
    from Cons.prems(1) rest have e': "e' = Next" and sub: "set steps' \<subseteq> set steps"
      by (auto split: if_splits sum.splits)
    from Cons.IH[OF rest[unfolded e'] j'] sub Suc show ?thesis
      by (auto split: if_splits)
  qed
qed

lemma submitted_tx_begin_step [simp]: "submitted_tx (begin_step r env h b ctx) = None"
  by (simp add: begin_step_def)

lemma block_loop_submitted:
  assumes "block_loop r env k hs = (steps, e)" and "s \<in> set steps"
    and "submitted_tx s = Some (h, i)"
  shows "k \<le> h \<and> h < k + length hs \<and> \<not> before_start r h i \<and>
         (\<exists>b. ReadBlock env (hs ! (h - k)) h = Some b \<and> i < length (Transactions b) \<and>
              EthTx s = Some (Transactions b ! i))"
  using assms
proof (induction hs arbitrary: k steps e)
  case Nil
  then show ?case by simp
next
  case (Cons blockHash hs)
  obtain rest e' where rest: "block_loop r env (Suc k) hs = (rest, e')"
    by (cases "block_loop r env (Suc k) hs")
  note later = Cons.IH[OF rest _ Cons.prems(3)]
  show ?case
  proof (cases "BreakBlock r \<noteq> 0 \<and> BreakTx r = 0 \<and> int k = sint (BreakBlock r)")
    case True
    with Cons.prems show ?thesis by auto
  next
    case nobreak: False
    show ?thesis
    proof (cases "int k < sint (StartBlock r)")
      case True
      with nobreak Cons.prems rest have "s \<in> set rest"
        by auto
      from later[OF this] show ?thesis
        by (auto simp: nth_Cons' Suc_diff_le)
    next
      case False
      show ?thesis
      proof (cases "ReadBlock env blockHash k")
        case None
        with nobreak False Cons.prems show ?thesis by auto
      next
        case (Some b)
        show ?thesis
        proof (cases "getBlockContext env b")
          case (Inl err)
          with nobreak False Some Cons.prems show ?thesis by auto
        next
          case (Inr ctx)
          obtain txsteps te where txl: "tx_loop r env k 0 (Transactions b) = (txsteps, te)"
            by (cases "tx_loop r env k 0 (Transactions b)")
          from nobreak False Some Inr txl rest Cons.prems(1)
          have "set steps \<subseteq> insert (begin_step r env k b ctx) (set txsteps \<union> set rest)"
            by (auto split: exit.splits)
          with Cons.prems(2,3) consider "s \<in> set txsteps" | "s \<in> set rest"
            by auto
          then show ?thesis
          proof cases
            case 1
            from tx_loop_submitted[OF txl 1 Cons.prems(3)] Some False show ?thesis
              by (auto simp: before_start_def)
          next
            case 2
            from later[OF 2] show ?thesis
              by (auto simp: nth_Cons' Suc_diff_le)
          qed
        qed
      qed
    qed
  qed
qed

lemma tx_loop_never_breaks:
  "BreakBlock r = 0 \<Longrightarrow> tx_loop r env h i txs = (steps, e) \<Longrightarrow> e \<noteq> Break"
proof (induction txs arbitrary: i steps e)
  case Nil
  then show ?case by auto
next
  case (Cons tx txs)
  obtain steps' e' where rest: "tx_loop r env h (Suc i) txs = (steps', e')"
    by (cases "tx_loop r env h (Suc i) txs")
  from Cons.IH[OF Cons.prems(1) rest] Cons.prems rest show ?case
    by (auto split: sum.splits if_splits)
qed

lemma block_loop_never_breaks:
  "BreakBlock r = 0 \<Longrightarrow> block_loop r env k hs = (steps, e) \<Longrightarrow> e \<noteq> Break"
proof (induction hs arbitrary: k steps e)
  case Nil
  then show ?case by auto
next
  case (Cons blockHash hs)
  obtain rest e' where rest: "block_loop r env (Suc k) hs = (rest, e')"
    by (cases "block_loop r env (Suc k) hs")
  have tx: "te \<noteq> Break" if "tx_loop r env k 0 txs = (txsteps, te)" for txs txsteps te
    using tx_loop_never_breaks[OF Cons.prems(1) that] .
  from Cons.IH[OF Cons.prems(1) rest] Cons.prems rest show ?case
    by (auto split: option.splits sum.splits prod.splits exit.splits if_splits dest: tx)
qed

lemma block_loop_complete:
  assumes "block_loop r env k hs = (steps, Next)" and "j < length hs"
  shows "(int (k + j) < sint (StartBlock r) \<longrightarrow>
            comment_step (SkippingBlock (k + j)) \<in> set steps) \<and>
         (sint (StartBlock r) \<le> int (k + j) \<longrightarrow>
            (\<exists>b. ReadBlock env (hs ! j) (k + j) = Some b \<and>
               (\<forall>i<length (Transactions b).
                  (before_start r (k + j) i \<longrightarrow>
                     comment_step (SkippingTx i (k + j)) \<in> set steps) \<and>
                  (\<not> before_start r (k + j) i \<longrightarrow>
                     (\<exists>s\<in>set steps. submitted_tx s = Some (k + j, i) \<and>
                         EthTx s = Some (Transactions b ! i))))))"
  using assms
proof (induction hs arbitrary: k j steps)
  case Nil
  then show ?case by simp
next
  case (Cons blockHash hs)
  obtain rest e' where rest: "block_loop r env (Suc k) hs = (rest, e')"
    by (cases "block_loop r env (Suc k) hs")
  have nobreak: "\<not> (BreakBlock r \<noteq> 0 \<and> BreakTx r = 0 \<and> int k = sint (BreakBlock r))"
    using Cons.prems(1) by auto
  have later: ?case if e': "e' = Next" and sub: "set rest \<subseteq> set steps" and j: "j = Suc j'"
    for j'
  proof -
    from j Cons.prems(2) have "j' < length hs" by simp
    note ih = Cons.IH[OF rest[unfolded e'] this]
    have eq: "k + j = Suc k + j'" "(blockHash # hs) ! j = hs ! j'"
      using j by simp_all
    show ?thesis
      unfolding eq using ih sub by blast
  qed
  show ?case
  proof (cases "int k < sint (StartBlock r)")
    case True
    with nobreak Cons.prems(1) rest have e': "e' = Next"
      and steps: "steps = comment_step (SkippingBlock k) # rest"
      by auto
    show ?thesis
    proof (cases j)
      case 0
      with True steps show ?thesis by simp
    next
      case (Suc j')
      from later[OF e' _ Suc] steps show ?thesis by auto
    qed
  next
    case False
    from nobreak False Cons.prems(1) obtain b ctx txsteps
      where b: "ReadBlock env blockHash k = Some b"
        and ctx: "getBlockContext env b = Inr ctx"
        and txl: "tx_loop r env k 0 (Transactions b) = (txsteps, Next)"
      by (auto split: option.splits sum.splits prod.splits exit.splits)
    with nobreak False Cons.prems(1) rest have e': "e' = Next"
      and steps: "steps = begin_step r env k b ctx # txsteps @ rest"
      by auto
    show ?thesis
    proof (cases j)
      case 0
      have "(before_start r k i \<longrightarrow> comment_step (SkippingTx i k) \<in> set steps) \<and>
            (\<not> before_start r k i \<longrightarrow>
               (\<exists>s\<in>set steps. submitted_tx s = Some (k, i) \<and>
                     EthTx s = Some (Transactions b ! i)))"
        if "i < length (Transactions b)" for i
        using tx_loop_complete[OF txl that] False steps
        by (auto simp: before_start_def split: if_splits)
      with 0 b False show ?thesis by simp
    next
      case (Suc j')
      from later[OF e' _ Suc] steps show ?thesis by auto
    qed
  qed
qed

lemma tx_loop_exit_causes:
  assumes "tx_loop r env h i txs = (steps, e)"
  shows "(e = Return \<longrightarrow> (\<exists>t. isl (MarshalBinary env t)) \<or> (\<exists>g. isl (FormatNearAmount env g))) \<and>
         (\<forall>p. e = Panic p \<longrightarrow> BatchSize r = 0)"
  using assms
proof (induction txs arbitrary: i steps e)
  case Nil
  then show ?case by simp
next
  case (Cons tx txs)
  obtain steps' e' where rest: "tx_loop r env h (Suc i) txs = (steps', e')"
    by (cases "tx_loop r env h (Suc i) txs")
  have encode: "\<exists>t. isl (MarshalBinary env t)" if "MarshalBinary env tx = Inl err" for err
    using that by (intro exI[of _ tx]) simp
  have format: "\<exists>g. isl (FormatNearAmount env g)"
    if "FormatNearAmount env share = Inl err" for share err
    using that by (intro exI[of _ share]) simp
  from Cons.prems rest Cons.IH[OF rest] show ?case
    by (auto simp: gas_share_def split: if_splits sum.splits dest: encode format)
qed

lemma block_loop_exit_causes:
  assumes "block_loop r env k hs = (steps, e)"
  shows "(e = Return \<longrightarrow>
            (\<exists>j<length hs. ReadBlock env (hs ! j) (k + j) = None) \<or>
            (\<exists>b. isl (getBlockContext env b)) \<or> (\<exists>t. isl (MarshalBinary env t)) \<or>
            (\<exists>g. isl (FormatNearAmount env g))) \<and>
         (\<forall>p. e = Panic p \<longrightarrow> BatchSize r = 0)"
  using assms
proof (induction hs arbitrary: k steps e)
  case Nil
  then show ?case by simp
next
  case (Cons blockHash hs)
  obtain rest e' where rest: "block_loop r env (Suc k) hs = (rest, e')"
    by (cases "block_loop r env (Suc k) hs")
  from Cons.IH[OF rest]
  have later: "e' = Return \<longrightarrow>
       (\<exists>j<length (blockHash # hs). ReadBlock env ((blockHash # hs) ! j) (k + j) = None) \<or>
       (\<exists>b. isl (getBlockContext env b)) \<or> (\<exists>t. isl (MarshalBinary env t)) \<or>
       (\<exists>g. isl (FormatNearAmount env g))"
    "\<forall>p. e' = Panic p \<longrightarrow> BatchSize r = 0"
    by (fastforce, simp)
  show ?case
  proof (cases "BreakBlock r \<noteq> 0 \<and> BreakTx r = 0 \<and> int k = sint (BreakBlock r)")
    case True
    with Cons.prems show ?thesis by auto
  next
    case nobreak: False
    show ?thesis
    proof (cases "int k < sint (StartBlock r)")
      case True
      with nobreak Cons.prems rest later show ?thesis
        by auto
    next
      case False
      show ?thesis
      proof (cases "ReadBlock env blockHash k")
        case None
        with nobreak False Cons.prems have "e = Return"
          by auto
        moreover from None have "\<exists>j<length (blockHash # hs).
            ReadBlock env ((blockHash # hs) ! j) (k + j) = None"
          by (intro exI[of _ 0]) simp
        ultimately show ?thesis by simp
      next
        case (Some b)
        show ?thesis
        proof (cases "getBlockContext env b")
          case (Inl err)
          with nobreak False Some Cons.prems have "e = Return"
            by auto
          moreover from Inl have "\<exists>b. isl (getBlockContext env b)"
            by (intro exI[of _ b]) simp
          ultimately show ?thesis by simp
        next
          case (Inr ctx)
          obtain txsteps te where txl: "tx_loop r env k 0 (Transactions b) = (txsteps, te)"
            by (cases "tx_loop r env k 0 (Transactions b)")
          note inner = tx_loop_exit_causes[OF txl]
          show ?thesis
          proof (cases "te = Next")
            case True
            with nobreak False Some Inr txl rest Cons.prems have "e = e'"
              by auto
            with later show ?thesis by auto
          next
            case stop: False
            with nobreak False Some Inr txl Cons.prems have "e = te"
              by (auto split: exit.splits)
            with inner show ?thesis by auto
          qed
        qed
      qed
    qed
  qed
qed

lemma unhindered_closes:
  assumes "generator_unhindered r env blocks"
    and "startTxGenerator r env blocks = (steps, e)"
  shows "e = Closed"
proof -
  obtain bs x where loop: "block_loop r env 0 blocks = (bs, x)"
    by (cases "block_loop r env 0 blocks")
  with assms have e: "e = end_of x"
    by (cases "chan_capacity r") (auto simp: startTxGenerator_def generator_unhindered_def)
  from block_loop_exit_causes[OF loop] assms(1) have "x \<noteq> Return" "\<forall>p. x \<noteq> Panic p"
    by (auto simp: generator_unhindered_def reads_succeed_def)
  with e show ?thesis
    by (cases x) (simp_all add: end_of_def)
qed

text \<open>
  Claim C3. With no break configured, no Submission step of the stream submits a source
  transaction that lies before the start point \<open>(StartBlock, StartTx)\<close>. When the
  generator runs to the end and closes the channel, every block below \<open>StartBlock\<close> has
  left its \<^verbatim>\<open>skipping block\<close> comment, every transaction of the start block below
  \<open>StartTx\<close> its \<^verbatim>\<open>skipping transaction\<close> comment, and every transaction at or after the
  start point a Submission step that carries it. The generator does close the channel when
  the batch size is not zero and no collaborator fails.
\<close>

theorem start_point_respected:
  assumes "BreakBlock r = 0" and "startTxGenerator r env blocks = (steps, e)"
  shows "(\<forall>s\<in>set steps. \<forall>h i. submitted_tx s = Some (h, i) \<longrightarrow> \<not> before_start r h i) \<and>
         (e = Closed \<longrightarrow>
            (\<forall>h<length blocks.
               (int h < sint (StartBlock r) \<longrightarrow>
                  comment_step (SkippingBlock h) \<in> set steps) \<and>
               (sint (StartBlock r) \<le> int h \<longrightarrow>
                  (\<exists>b. ReadBlock env (blocks ! h) h = Some b \<and>
                     (\<forall>i<length (Transactions b).
                        (before_start r h i \<longrightarrow>
                           comment_step (SkippingTx i h) \<in> set steps) \<and>
                        (\<not> before_start r h i \<longrightarrow>
                           (\<exists>s\<in>set steps. submitted_tx s = Some (h, i) \<and>
                               EthTx s = Some (Transactions b ! i)))))))) \<and>
         (generator_unhindered r env blocks \<longrightarrow> e = Closed)"
proof (cases "chan_capacity r")
  case (Inl p)
  with assms(2) show ?thesis
    by (auto simp: startTxGenerator_def generator_unhindered_def)
next
  case (Inr capacity)
  obtain bs x where loop: "block_loop r env 0 blocks = (bs, x)"
    by (cases "block_loop r env 0 blocks")
  with Inr assms(2) have steps: "steps = submission_of (beginChainTx env) # bs"
    and e: "e = end_of x"
    by (auto simp: startTxGenerator_def)
  have first: "\<forall>s\<in>set steps. \<forall>h i. submitted_tx s = Some (h, i) \<longrightarrow> \<not> before_start r h i"
    using block_loop_submitted[OF loop] steps by auto
  have second: "(int h < sint (StartBlock r) \<longrightarrow>
                  comment_step (SkippingBlock h) \<in> set steps) \<and>
               (sint (StartBlock r) \<le> int h \<longrightarrow>
                  (\<exists>b. ReadBlock env (blocks ! h) h = Some b \<and>
                     (\<forall>i<length (Transactions b).
                        (before_start r h i \<longrightarrow>
                           comment_step (SkippingTx i h) \<in> set steps) \<and>
                        (\<not> before_start r h i \<longrightarrow>
                           (\<exists>s\<in>set steps. submitted_tx s = Some (h, i) \<and>
                               EthTx s = Some (Transactions b ! i))))))"
    if "e = Closed" and h: "h < length blocks" for h
  proof -
    from block_loop_never_breaks[OF assms(1) loop] \<open>e = Closed\<close> e have "x = Next"
      by (cases x) (auto simp: end_of_def)
    from block_loop_complete[OF loop[unfolded this] h] have
      "(int h < sint (StartBlock r) \<longrightarrow> comment_step (SkippingBlock h) \<in> set bs) \<and>
         (sint (StartBlock r) \<le> int h \<longrightarrow>
            (\<exists>b. ReadBlock env (blocks ! h) h = Some b \<and>
               (\<forall>i<length (Transactions b).
                  (before_start r h i \<longrightarrow> comment_step (SkippingTx i h) \<in> set bs) \<and>
                  (\<not> before_start r h i \<longrightarrow>
                     (\<exists>s\<in>set bs. submitted_tx s = Some (h, i) \<and>
                         EthTx s = Some (Transactions b ! i))))))"
      by simp
    moreover have "set bs \<subseteq> set steps"
      using steps by auto
    ultimately show ?thesis by blast
  qed
  have third: "generator_unhindered r env blocks \<longrightarrow> e = Closed"
    using unhindered_closes[OF _ assms(2)] by blast
  from first second third show ?thesis by blast
qed

lemmas example_defs = startTxGenerator_def chan_capacity_def example_replayer_def
  example_env_def example_chain_def example_tx_def gas_share_def end_of_def begin_step_def
  submission_of_def comment_step_def error_step_def

lemma late_start_stream:
  "startTxGenerator late_start example_env [10, 11, 12] =
     ([submission_of (beginChainTx example_env),
       comment_step (SkippingBlock 0),
       submission_of (beginBlockTx example_env 300 ()),
       comment_step (SkippingTx 0 1),
       \<lparr>Comment = SubmitComment 1 1 1 ''gas'', MethodName = ''submit'', Args = [1],
        EthTx = Some (example_tx 1), Error = None\<rparr>,
       submission_of (beginBlockTx example_env 300 ()),
       \<lparr>Comment = SubmitComment 2 0 1 ''gas'', MethodName = ''submit'', Args = [2],
        EthTx = Some (example_tx 2), Error = None\<rparr>],
      Closed)"
  by (simp add: late_start_def example_defs)

lemma example_reads_succeed: "reads_succeed example_env [10, 11, 12]"
  by (auto simp: reads_succeed_def example_env_def example_chain_def less_Suc_eq
      numeral_3_eq_3)

lemma late_start_unhindered: "generator_unhindered late_start example_env [10, 11, 12]"
  using example_reads_succeed
  by (simp add: generator_unhindered_def chan_capacity_def late_start_def example_replayer_def)
    (simp add: example_env_def)

theorem start_point_respected_witness:
  "BreakBlock late_start = 0 \<and> generator_unhindered late_start example_env [10, 11, 12] \<and>
   (\<exists>steps. startTxGenerator late_start example_env [10, 11, 12] = (steps, Closed) \<and>
      (\<forall>s\<in>set steps. submitted_tx s \<noteq> Some (1, 0)) \<and>
      comment_step (SkippingBlock 0) \<in> set steps)"
proof -
  have nobreak: "BreakBlock late_start = 0"
    by (simp add: late_start_def example_replayer_def)
  note claim = start_point_respected[OF nobreak late_start_stream]
  have "before_start late_start 1 0"
    by (simp add: before_start_def late_start_def example_replayer_def)
  with claim have "\<forall>s\<in>set (fst (startTxGenerator late_start example_env [10, 11, 12])).
      submitted_tx s \<noteq> Some (1, 0)"
    unfolding late_start_stream fst_conv by blast
  moreover from claim have "comment_step (SkippingBlock 0) \<in>
      set (fst (startTxGenerator late_start example_env [10, 11, 12]))"
    unfolding late_start_stream fst_conv
    by (simp add: late_start_def example_replayer_def)
  ultimately show ?thesis
    using nobreak late_start_unhindered late_start_stream by simp
qed


lemma missed_break_stream:
  "startTxGenerator missed_break example_env [10, 11, 12] =
     ([submission_of (beginChainTx example_env),
       submission_of (beginBlockTx example_env 300 ()),
       submission_of (beginBlockTx example_env 300 ()),
       \<lparr>Comment = SubmitComment 1 0 1 ''gas'', MethodName = ''submit'', Args = [0],
        EthTx = Some (example_tx 0), Error = None\<rparr>,
       \<lparr>Comment = SubmitComment 1 1 1 ''gas'', MethodName = ''submit'', Args = [1],
        EthTx = Some (example_tx 1), Error = None\<rparr>,
       submission_of (beginBlockTx example_env 300 ()),
       \<lparr>Comment = SubmitComment 2 0 1 ''gas'', MethodName = ''submit'', Args = [2],
        EthTx = Some (example_tx 2), Error = None\<rparr>],
      Closed)"
  by (simp add: missed_break_def example_defs)

text \<open>
  Claim C2 as it is written fails. With \<open>BreakBlock = 1\<close> and \<open>BreakTx = 5\<close>, block 1 has
  no transaction with index 5: neither test for the break point ever holds, the generator
  walks on into block 2 and submits its transaction, which lies after the break point.
\<close>

theorem break_point_counterexample:
  "BreakBlock missed_break \<noteq> 0 \<and> \<not> before_break missed_break 2 0 \<and>
   submitted_tx (fst (startTxGenerator missed_break example_env [10, 11, 12]) ! 6) = Some (2, 0)"
  by (simp add: missed_break_stream) (simp add: missed_break_def example_replayer_def before_break_def)

lemma tx_loop_break_last:
  assumes "tx_loop r env h i txs = (steps, Break)"
  shows "steps \<noteq> [] \<and> last steps = comment_step (BreakingTx (nat (sint (BreakTx r))) h) \<and>
         BreakBlock r \<noteq> 0 \<and> int h = sint (BreakBlock r)"
  using assms
proof (induction txs arbitrary: i steps)
  case Nil
  then show ?case by simp
next
  case (Cons tx txs)
  obtain steps' e' where rest: "tx_loop r env h (Suc i) txs = (steps', e')"
    by (cases "tx_loop r env h (Suc i) txs")
  show ?case
  proof (cases "BreakBlock r \<noteq> 0 \<and> int h = sint (BreakBlock r) \<and> int i = sint (BreakTx r)")
    case True
    then have "nat (sint (BreakTx r)) = i" by auto
    with True Cons.prems show ?thesis by auto
  next
    case False
    with Cons.prems rest have e': "e' = Break" and "\<exists>s. steps = s # steps'"
      by (auto split: if_splits sum.splits)
    with Cons.IH[OF rest[unfolded e']] show ?thesis
      by auto
  qed
qed

lemma tx_loop_break_hit:
  assumes "tx_loop r env h i txs = (steps, e)"
    and "BreakBlock r \<noteq> 0" and "int h = sint (BreakBlock r)"
    and "int i \<le> sint (BreakTx r)" and "sint (BreakTx r) < int (i + length txs)"
  shows "e \<noteq> Next \<and>
         (\<forall>s\<in>set steps. \<forall>h' i'. submitted_tx s = Some (h', i') \<longrightarrow> int i' < sint (BreakTx r))"
  using assms
proof (induction txs arbitrary: i steps e)
  case Nil
  then show ?case by simp
next
  case (Cons tx txs)
  obtain steps' e' where rest: "tx_loop r env h (Suc i) txs = (steps', e')"
    by (cases "tx_loop r env h (Suc i) txs")
  show ?case
  proof (cases "int i = sint (BreakTx r)")
    case True
    with Cons.prems show ?thesis by auto
  next
    case False
    with Cons.prems have "int (Suc i) \<le> sint (BreakTx r)"
      "sint (BreakTx r) < int (Suc i + length txs)" "int i < sint (BreakTx r)"
      by auto
    note ih = Cons.IH[OF rest Cons.prems(2,3) this(1,2)]
    from False Cons.prems(1) rest ih \<open>int i < sint (BreakTx r)\<close> show ?thesis
      by (auto split: if_splits sum.splits)
  qed
qed

lemma block_loop_break_last:
  assumes "block_loop r env k hs = (steps, Break)"
  shows "steps \<noteq> [] \<and> last steps = comment_step (break_comment r)"
  using assms
proof (induction hs arbitrary: k steps)
  case Nil
  then show ?case by simp
next
  case (Cons blockHash hs)
  obtain rest e' where rest: "block_loop r env (Suc k) hs = (rest, e')"
    by (cases "block_loop r env (Suc k) hs")
  show ?case
  proof (cases "BreakBlock r \<noteq> 0 \<and> BreakTx r = 0 \<and> int k = sint (BreakBlock r)")
    case True
    then have "nat (sint (BreakBlock r)) = k" by auto
    with True Cons.prems show ?thesis
      by (auto simp: break_comment_def)
  next
    case nobreak: False
    show ?thesis
    proof (cases "int k < sint (StartBlock r)")
      case True
      with nobreak Cons.prems rest
      have e': "e' = Break" and steps: "steps = comment_step (SkippingBlock k) # rest"
        by auto
      from Cons.IH[OF rest[unfolded e']] steps show ?thesis by simp
    next
      case False
      from nobreak False Cons.prems obtain b ctx txsteps te
        where b: "ReadBlock env blockHash k = Some b"
          and ctx: "getBlockContext env b = Inr ctx"
          and txl: "tx_loop r env k 0 (Transactions b) = (txsteps, te)"
        by (auto split: option.splits sum.splits prod.splits exit.splits)
      show ?thesis
      proof (cases "te = Next")
        case True
        with nobreak False b ctx txl rest Cons.prems
        have e': "e' = Break" and steps: "steps = begin_step r env k b ctx # txsteps @ rest"
          by auto
        from Cons.IH[OF rest[unfolded e']] steps show ?thesis by simp
      next
        case stop: False
        with nobreak False b ctx txl Cons.prems
        have te: "te = Break" and steps: "steps = begin_step r env k b ctx # txsteps"
          by (auto split: exit.splits)
        from tx_loop_break_last[OF txl[unfolded te]]
        have hit: "txsteps \<noteq> []"
          "last txsteps = comment_step (BreakingTx (nat (sint (BreakTx r))) k)"
          "BreakBlock r \<noteq> 0" "int k = sint (BreakBlock r)"
          by simp_all
        from hit(4) have "nat (sint (BreakBlock r)) = k" by simp
        with hit nobreak
        have "txsteps \<noteq> []" "last txsteps = comment_step (break_comment r)"
          by (simp_all add: break_comment_def)
        with steps show ?thesis by simp
      qed
    qed
  qed
qed

lemma block_loop_break_hit:
  assumes "block_loop r env k hs = (steps, e)"
    and "0 < sint (BreakBlock r)" and "int k \<le> sint (BreakBlock r)"
    and "break_ahead r env k hs"
  shows "(\<forall>s\<in>set steps. \<forall>h i. submitted_tx s = Some (h, i) \<longrightarrow> before_break r h i) \<and>
         (nat (sint (BreakBlock r)) - k < length hs \<longrightarrow> e \<noteq> Next)"
  using assms
proof (induction hs arbitrary: k steps e)
  case Nil
  then show ?case by simp
next
  case (Cons blockHash hs)
  let ?B = "nat (sint (BreakBlock r))"
  have B0: "BreakBlock r \<noteq> 0"
    using Cons.prems(2) by auto
  obtain rest e' where rest: "block_loop r env (Suc k) hs = (rest, e')"
    by (cases "block_loop r env (Suc k) hs")
  have later: "(\<forall>s\<in>set rest. \<forall>h i. submitted_tx s = Some (h, i) \<longrightarrow> before_break r h i) \<and>
         (?B - k < length (blockHash # hs) \<longrightarrow> e' \<noteq> Next)"
    if "int k < sint (BreakBlock r)"
  proof -
    from that have le: "int (Suc k) \<le> sint (BreakBlock r)" by simp
    from that have idx: "?B - k = Suc (?B - Suc k)" by auto
    from Cons.prems(4) have "break_ahead r env (Suc k) hs"
      by (auto simp: break_ahead_def Let_def idx split: if_splits)
    from Cons.IH[OF rest Cons.prems(2) le this] show ?thesis
      unfolding idx by simp
  qed
  show ?case
  proof (cases "BreakTx r = 0 \<and> int k = sint (BreakBlock r)")
    case True
    with B0 Cons.prems(1) show ?thesis by auto
  next
    case nobreak: False
    show ?thesis
    proof (cases "int k < sint (StartBlock r)")
      case True
      have "int k < sint (BreakBlock r)"
      proof (rule ccontr)
        assume "\<not> int k < sint (BreakBlock r)"
        with Cons.prems(3) have eq: "int k = sint (BreakBlock r)" by simp
        then have "?B - k = 0" by simp
        with Cons.prems(4) nobreak eq have "sint (StartBlock r) \<le> sint (BreakBlock r)"
          by (auto simp: break_ahead_def Let_def split: if_splits)
        with True eq show False by simp
      qed
      from later[OF this] nobreak True Cons.prems(1) rest show ?thesis
        by auto
    next
      case False
      show ?thesis
      proof (cases "ReadBlock env blockHash k")
        case None
        with nobreak False Cons.prems(1) show ?thesis by auto
      next
        case (Some b)
        show ?thesis
        proof (cases "getBlockContext env b")
          case (Inl err)
          with nobreak False Some Cons.prems(1) show ?thesis by auto
        next
          case (Inr ctx)
          obtain txsteps te where txl: "tx_loop r env k 0 (Transactions b) = (txsteps, te)"
            by (cases "tx_loop r env k 0 (Transactions b)")
          have here: "h = k" if "s \<in> set txsteps" "submitted_tx s = Some (h, i)" for s h i
            using tx_loop_submitted[OF txl that] by simp
          show ?thesis
          proof (cases "int k = sint (BreakBlock r)")
            case True
            then have "?B - k = 0" "?B = k" by simp_all
            with Cons.prems(4) nobreak True Some
            have "0 \<le> sint (BreakTx r)" "sint (BreakTx r) < int (length (Transactions b))"
              by (auto simp: break_ahead_def Let_def split: if_splits)
            with tx_loop_break_hit[OF txl B0 True] have te: "te \<noteq> Next"
              and before: "\<forall>s\<in>set txsteps. \<forall>h' i'. submitted_tx s = Some (h', i') \<longrightarrow>
                             int i' < sint (BreakTx r)"
              by auto
            from te nobreak False Some Inr txl Cons.prems(1)
            have "steps = begin_step r env k b ctx # txsteps" "e = te"
              by (auto split: exit.splits)
            with te before here True show ?thesis
              by (auto simp: before_break_def)
          next
            case below: False
            with Cons.prems(3) have lt: "int k < sint (BreakBlock r)" by simp
            from nobreak \<open>\<not> int k < sint (StartBlock r)\<close> Some Inr txl rest Cons.prems(1)
            have sub: "set steps \<subseteq> insert (begin_step r env k b ctx) (set txsteps \<union> set rest)"
              and e: "e = Next \<longrightarrow> e' = Next"
              by (auto split: exit.splits)
            have "before_break r h i" if "s \<in> set steps" "submitted_tx s = Some (h, i)" for s h i
            proof -
              from sub that consider "s \<in> set txsteps" | "s \<in> set rest"
                by auto
              then show ?thesis
              proof cases
                case 1
                from here[OF 1 that(2)] lt show ?thesis
                  by (simp add: before_break_def)
              next
                case 2
                with later[OF lt] that(2) show ?thesis by blast
              qed
            qed
            with later[OF lt] e show ?thesis by blast
          qed
        qed
      qed
    qed
  qed
qed

lemma break_point_stream:
  assumes "0 < sint (BreakBlock r)" and "break_visited r env blocks"
    and "startTxGenerator r env blocks = (steps, e)"
  shows "(\<forall>s\<in>set steps. \<forall>h i. submitted_tx s = Some (h, i) \<longrightarrow> before_break r h i) \<and>
         (nat (sint (BreakBlock r)) < length blocks \<and> e = Closed \<longrightarrow>
            last steps = comment_step (break_comment r) \<and> is_comment (last steps))"
proof (cases "chan_capacity r")
  case (Inl p)
  with assms(3) show ?thesis
    by (auto simp: startTxGenerator_def)
next
  case (Inr capacity)
  obtain bs x where loop: "block_loop r env 0 blocks = (bs, x)"
    by (cases "block_loop r env 0 blocks")
  with Inr assms(3) have steps: "steps = submission_of (beginChainTx env) # bs"
    and e: "e = end_of x"
    by (auto simp: startTxGenerator_def)
  from assms(2) have ahead: "break_ahead r env 0 blocks"
    by (simp add: break_visited_def)
  from block_loop_break_hit[OF loop assms(1) _ ahead] assms(1)
  have before: "\<forall>s\<in>set bs. \<forall>h i. submitted_tx s = Some (h, i) \<longrightarrow> before_break r h i"
    and stops: "nat (sint (BreakBlock r)) < length blocks \<longrightarrow> x \<noteq> Next"
    by simp_all
  have "last steps = comment_step (break_comment r) \<and> is_comment (last steps)"
    if "nat (sint (BreakBlock r)) < length blocks" and "e = Closed"
  proof -
    from that stops e have "x = Break"
      by (cases x) (auto simp: end_of_def)
    from block_loop_break_last[OF loop[unfolded this]] steps
    have "last steps = comment_step (break_comment r)" by simp
    then show ?thesis
      by (simp add: is_comment_def comment_step_def)
  qed
  with before steps show ?thesis by auto
qed

text \<open>
  Claim C2, as amended. Let the break block be positive. At the break point itself each
  loop sends the comment that announces the break and leaves for \<^verbatim>\<open>close(c)\<close>: the outer
  loop at the block \<open>BreakBlock\<close> when \<open>BreakTx = 0\<close>, the inner loop at the transaction
  \<open>BreakTx\<close> of that block. When the break point is one that the loops test for, every
  source transaction that the stream submits lies before \<open>(BreakBlock, BreakTx)\<close>; and
  when the break block is a height of the list and the generator closes the channel, the
  last step of the stream is the comment that announces the break. The generator does
  close the channel when the batch size is not zero and no collaborator fails.
\<close>

theorem break_point_respected:
  assumes "0 < sint (BreakBlock r)"
  shows "(\<forall>k blockHash hs. BreakTx r = 0 \<and> int k = sint (BreakBlock r) \<longrightarrow>
            block_loop r env k (blockHash # hs) = ([comment_step (BreakingBlock k)], Break)) \<and>
         (\<forall>h i tx txs. int h = sint (BreakBlock r) \<and> int i = sint (BreakTx r) \<longrightarrow>
            tx_loop r env h i (tx # txs) = ([comment_step (BreakingTx i h)], Break)) \<and>
         end_of Break = Closed \<and>
         (\<forall>steps e. break_visited r env blocks \<and> startTxGenerator r env blocks = (steps, e) \<longrightarrow>
            (\<forall>s\<in>set steps. \<forall>h i. submitted_tx s = Some (h, i) \<longrightarrow> before_break r h i) \<and>
            (nat (sint (BreakBlock r)) < length blocks \<and> e = Closed \<longrightarrow>
               last steps = comment_step (break_comment r) \<and> is_comment (last steps)) \<and>
            (generator_unhindered r env blocks \<longrightarrow> e = Closed))"
proof -
  from assms have set: "BreakBlock r \<noteq> 0" by auto
  have outer: "\<forall>k blockHash hs. BreakTx r = 0 \<and> int k = sint (BreakBlock r) \<longrightarrow>
      block_loop r env k (blockHash # hs) = ([comment_step (BreakingBlock k)], Break)"
    using set by simp
  have inner: "\<forall>h i tx txs. int h = sint (BreakBlock r) \<and> int i = sint (BreakTx r) \<longrightarrow>
      tx_loop r env h i (tx # txs) = ([comment_step (BreakingTx i h)], Break)"
    using set by simp
  have closes: "end_of Break = Closed"
    by (simp add: end_of_def)
  have stream: "\<forall>steps e. break_visited r env blocks \<and> startTxGenerator r env blocks = (steps, e) \<longrightarrow>
      (\<forall>s\<in>set steps. \<forall>h i. submitted_tx s = Some (h, i) \<longrightarrow> before_break r h i) \<and>
      (nat (sint (BreakBlock r)) < length blocks \<and> e = Closed \<longrightarrow>
         last steps = comment_step (break_comment r) \<and> is_comment (last steps)) \<and>
      (generator_unhindered r env blocks \<longrightarrow> e = Closed)"
    using break_point_stream[OF assms] unhindered_closes by blast
  show ?thesis
    by (intro conjI) (rule outer inner closes stream)+
qed

lemma early_break_stream:
  "startTxGenerator early_break example_env [10, 11, 12] =
     ([submission_of (beginChainTx example_env),
       submission_of (beginBlockTx example_env 300 ()),
       submission_of (beginBlockTx example_env 300 ()),
       \<lparr>Comment = SubmitComment 1 0 1 ''gas'', MethodName = ''submit'', Args = [0],
        EthTx = Some (example_tx 0), Error = None\<rparr>,
       comment_step (BreakingTx 1 1)],
      Closed)"
  by (simp add: early_break_def example_defs)

lemma early_break_unhindered: "generator_unhindered early_break example_env [10, 11, 12]"
  using example_reads_succeed
  by (simp add: generator_unhindered_def chan_capacity_def early_break_def example_replayer_def)
    (simp add: example_env_def)

theorem break_point_respected_witness:
  "0 < sint (BreakBlock early_break) \<and> break_visited early_break example_env [10, 11, 12] \<and>
   generator_unhindered early_break example_env [10, 11, 12] \<and>
   nat (sint (BreakBlock early_break)) < length [10, 11, 12 :: hash] \<and>
   (\<exists>steps. startTxGenerator early_break example_env [10, 11, 12] = (steps, Closed) \<and>
      last steps = comment_step (BreakingTx 1 1) \<and>
      (\<forall>s\<in>set steps. submitted_tx s \<noteq> Some (1, 1) \<and> submitted_tx s \<noteq> Some (2, 0)))"
proof -
  have pos: "0 < sint (BreakBlock early_break)"
    and len: "nat (sint (BreakBlock early_break)) < length [10, 11, 12 :: hash]"
    by (simp_all add: early_break_def example_replayer_def)
  have visited: "break_visited early_break example_env [10, 11, 12]"
    by (simp add: break_visited_def break_ahead_def early_break_def example_replayer_def
        example_env_def example_chain_def)
  have run: "startTxGenerator early_break example_env [10, 11, 12] =
      (fst (startTxGenerator early_break example_env [10, 11, 12]), Closed)"
    by (simp add: early_break_stream)
  from break_point_respected[OF pos, of example_env "[10, 11, 12]"] visited run
  have claim: "(\<forall>s\<in>set (fst (startTxGenerator early_break example_env [10, 11, 12])).
        \<forall>h i. submitted_tx s = Some (h, i) \<longrightarrow> before_break early_break h i) \<and>
      (nat (sint (BreakBlock early_break)) < length [10, 11, 12 :: hash] \<longrightarrow>
         last (fst (startTxGenerator early_break example_env [10, 11, 12])) =
           comment_step (break_comment early_break))"
    by blast
  have "\<not> before_break early_break 1 1" "\<not> before_break early_break 2 0"
    by (simp_all add: before_break_def early_break_def example_replayer_def)
  with claim have "\<forall>s\<in>set (fst (startTxGenerator early_break example_env [10, 11, 12])).
      submitted_tx s \<noteq> Some (1, 1) \<and> submitted_tx s \<noteq> Some (2, 0)"
    by blast
  moreover from claim len
  have "last (fst (startTxGenerator early_break example_env [10, 11, 12])) =
      comment_step (break_comment early_break)"
    by blast
  moreover have "break_comment early_break = BreakingTx 1 1"
    by (simp add: break_comment_def early_break_def example_replayer_def)
  ultimately show ?thesis
    using pos visited len early_break_unhindered early_break_stream by simp
qed

section \<open>Properties of the consumer\<close>

lemma drain_append:
  "drain r env c s (pre @ post) =
     (case drain r env c s pre of
        (s', None) \<Rightarrow> drain r env c s' post
      | (s', Some a) \<Rightarrow> (s', Some a))"
  by (induction pre arbitrary: s) (auto split: prod.splits option.splits)

lemma replay_step_error: "Error tx = Some e \<Longrightarrow> replay_step r env c s tx = (s, Some (Returned e))"
  by (simp add: replay_step_def)

lemma drain_error_step:
  "Error tx = Some e \<Longrightarrow> drain r env c s (tx # post) = (s, Some (Returned e))"
  by (simp add: replay_step_error)

lemma consume_aborted:
  "drain r env c start_run stream = (s, Some a) \<Longrightarrow> consume r env c (stream, g) = (s, Some a)"
  by (simp add: consume_def)

lemma full_batches_short: "length xs < n \<Longrightarrow> full_batches n xs = []"
  by (simp add: full_batches_def)

lemma remainder_short: "length xs < n \<Longrightarrow> remainder n xs = xs"
  by (simp add: remainder_def)

lemma full_batches_append:
  assumes "length xs = n" and "0 < n"
  shows "full_batches n (xs @ ys) = xs # full_batches n ys"
proof -
  have count: "length (xs @ ys) div n = Suc (length ys div n)"
    using assms div_add_self1[of n "length ys"] by simp
  have upt: "[0..<Suc (length ys div n)] = 0 # map Suc [0..<length ys div n]"
    by (simp add: upt_conv_Cons map_Suc_upt del: upt_Suc)
  have later: "take n (drop (Suc k * n) (xs @ ys)) = take n (drop (k * n) ys)" for k
    using assms by simp
  have first: "take n (xs @ ys) = xs"
    using assms by simp
  have "full_batches n (xs @ ys) =
      map (\<lambda>k. take n (drop (k * n) (xs @ ys))) (0 # map Suc [0..<length ys div n])"
    by (simp only: full_batches_def count upt)
  also have "\<dots> = take n (xs @ ys) #
      map (\<lambda>k. take n (drop (Suc k * n) (xs @ ys))) [0..<length ys div n]"
    by (simp only: list.map map_map comp_def mult_0 drop_0)
  also have "\<dots> = xs # full_batches n ys"
    by (simp only: later first full_batches_def)
  finally show ?thesis .
qed

lemma remainder_append:
  assumes "length xs = n" and "0 < n"
  shows "remainder n (xs @ ys) = remainder n ys"
proof -
  have count: "length (xs @ ys) div n = Suc (length ys div n)"
    using assms div_add_self1[of n "length ys"] by simp
  show ?thesis
    unfolding remainder_def count using assms by simp
qed

lemma length_remainder: "0 < n \<Longrightarrow> length (remainder n xs) = length xs mod n"
  by (simp add: remainder_def minus_div_mult_eq_mod)

lemma accepted_submit:
  assumes "accepts_all env"
  shows "\<exists>s'. submit env b tx reset c s = (s', None) \<and> calls s' = calls s @ [c] \<and>
              batch s' = (if reset then [] else batch s)"
proof -
  from assms obtain res status jsn where
    "Account env (calls s) c = Inr res" "map_of res ''status'' = Some (JObject status)"
    "\<not> has_failure status" "MarshalIndent env status = Inr jsn"
    unfolding accepts_all_def by blast
  then show ?thesis
    by (simp add: submit_def procTxResult_def print_def)
qed

lemma print_fields [simp]:
  "batch (print ls s) = batch s" "calls (print ls s) = calls s"
  "batch (print_comment f tx s) = batch s" "calls (print_comment f tx s) = calls s"
  by (simp_all add: print_def print_comment_def)

lemma submit_batch:
  "submit env b tx reset c s = (s', a) \<Longrightarrow> batch s' = batch s \<or> (reset \<and> batch s' = [])"
  by (cases reset) (auto simp: submit_def Let_def split: sum.splits prod.splits)

lemma submit_reset:
  "submit env b tx True c s = (s', None) \<Longrightarrow> batch s' = []"
  by (auto simp: submit_def print_def Let_def split: sum.splits prod.splits)

lemma replay_step_batch_bound:
  assumes "0 < sint (BatchSize r)" and "length (batch s) < nat (sint (BatchSize r))"
    and "replay_step r env c s tx = (s', a)"
  shows "length (batch s') \<le> nat (sint (BatchSize r)) \<and>
         (a = None \<longrightarrow> length (batch s') < nat (sint (BatchSize r)))"
proof (cases "Error tx = None \<and> MethodName tx \<noteq> ''''")
  case False
  with assms show ?thesis
    by (auto simp: replay_step_def print_def split: option.splits if_splits)
next
  case sub: True
  show ?thesis
  proof (cases "Batch r")
    case False
    with sub assms(3) have
      "submit env (Batch r) (EthTx tx) False
         (FunctionCall c (MethodName tx) (Args tx) (Gas r) 0) (print_comment PrintComment tx s) =
       (s', a)"
      by (simp add: replay_step_def)
    from submit_batch[OF this] assms(2) show ?thesis
      by (auto simp: print_comment_def print_def)
  next
    case True
    from assms(1) have nz: "BatchSize r \<noteq> 0" by auto
    let ?s2 = "(print_comment PrintBatching tx s)\<lparr>batch := batch (print_comment PrintBatching tx s) @
                 [\<lparr>Enum = 2, fc_MethodName = MethodName tx, fc_Args = Args tx,
                   fc_Gas = Gas r div BatchSize r, fc_Deposit = 0\<rparr>]\<rparr>"
    have len: "length (batch ?s2) = Suc (length (batch s))"
      by (simp add: print_comment_def print_def)
    show ?thesis
    proof (cases "int (length (batch ?s2)) = sint (BatchSize r)")
      case full: True
      with sub True nz assms(3) have sent:
        "submit env (Batch r) (EthTx tx) True (SignAndSendTransaction c (batch ?s2))
           (print [RunningBatch] ?s2) = (s', a)"
        by (simp add: replay_step_def gas_share_def Let_def)
      from submit_batch[OF sent] have "batch s' = batch ?s2 \<or> batch s' = []"
        by (auto simp: print_def)
      moreover have "batch s' = []" if "a = None"
        using sent[unfolded that] by (rule submit_reset)
      ultimately show ?thesis
        using full assms(1) by auto
    next
      case False
      with sub True nz assms(3) have "s' = ?s2" "a = None"
        by (simp_all add: replay_step_def gas_share_def Let_def)
      with False len assms(2) show ?thesis by auto
    qed
  qed
qed

lemma drain_batch_bound:
  assumes "0 < sint (BatchSize r)" and "length (batch s) < nat (sint (BatchSize r))"
    and "drain r env c s stream = (s', a)"
  shows "length (batch s') \<le> nat (sint (BatchSize r)) \<and>
         (a = None \<longrightarrow> length (batch s') < nat (sint (BatchSize r)))"
  using assms(2,3)
proof (induction stream arbitrary: s)
  case Nil
  then show ?case by auto
next
  case (Cons tx stream)
  obtain s1 a1 where step: "replay_step r env c s tx = (s1, a1)"
    by (cases "replay_step r env c s tx")
  note bound = replay_step_batch_bound[OF assms(1) Cons.prems(1) step]
  show ?case
  proof (cases a1)
    case None
    with step Cons.prems(2) have "drain r env c s1 stream = (s', a)" by simp
    from Cons.IH[OF _ this] bound None show ?thesis by simp
  next
    case (Some x)
    with step Cons.prems(2) have "s' = s1" "a = a1" by simp_all
    with bound show ?thesis by simp
  qed
qed

lemma accepted_step:
  assumes "Batch r" and "0 < sint (BatchSize r)" and "accepts_all env" and "Error tx = None"
    and "length (batch s) < nat (sint (BatchSize r))"
  shows "\<exists>s'. replay_step r env c s tx = (s', None) \<and>
           (if is_submission tx
            then if Suc (length (batch s)) = nat (sint (BatchSize r))
                 then calls s' = calls s @ [SignAndSendTransaction c (batch s @ [batched r tx])] \<and>
                      batch s' = []
                 else calls s' = calls s \<and> batch s' = batch s @ [batched r tx]
            else calls s' = calls s \<and> batch s' = batch s)"
proof (cases "MethodName tx \<noteq> ''''")
  case False
  with assms(4) show ?thesis
    by (simp add: replay_step_def is_submission_def print_def)
next
  case sub: True
  with assms(4) have is_sub: "is_submission tx"
    by (simp add: is_submission_def)
  from assms(2) have nz: "BatchSize r \<noteq> 0" by auto
  let ?s2 = "(print_comment PrintBatching tx s)\<lparr>batch := batch (print_comment PrintBatching tx s) @
               [\<lparr>Enum = 2, fc_MethodName = MethodName tx, fc_Args = Args tx,
                 fc_Gas = Gas r div BatchSize r, fc_Deposit = 0\<rparr>]\<rparr>"
  have s2: "batch ?s2 = batch s @ [batched r tx]" "calls ?s2 = calls s"
    by (simp_all add: print_comment_def print_def batched_def)
  show ?thesis
  proof (cases "Suc (length (batch s)) = nat (sint (BatchSize r))")
    case True
    with assms(2) have full: "int (length (batch ?s2)) = sint (BatchSize r)"
      unfolding s2 by auto
    from accepted_submit[OF assms(3), of "Batch r" "EthTx tx" True
        "SignAndSendTransaction c (batch ?s2)" "print [RunningBatch] ?s2"]
    obtain s' where sent:
      "submit env (Batch r) (EthTx tx) True (SignAndSendTransaction c (batch ?s2))
         (print [RunningBatch] ?s2) = (s', None)"
      and out: "calls s' = calls (print [RunningBatch] ?s2) @ [SignAndSendTransaction c (batch ?s2)]"
      "batch s' = []"
      by auto
    from sub assms(1,4) nz full sent have "replay_step r env c s tx = (s', None)"
      by (simp add: replay_step_def gas_share_def Let_def)
    moreover from out have
      "calls s' = calls s @ [SignAndSendTransaction c (batch s @ [batched r tx])]" "batch s' = []"
      unfolding s2 by simp_all
    ultimately show ?thesis
      using is_sub True by simp
  next
    case False
    with assms(2) have "int (length (batch ?s2)) \<noteq> sint (BatchSize r)"
      unfolding s2 by auto
    with sub assms(1,4) nz have "replay_step r env c s tx = (?s2, None)"
      by (simp add: replay_step_def gas_share_def Let_def)
    with is_sub False s2 show ?thesis by simp
  qed
qed

lemma accepted_drain:
  assumes "Batch r" and "0 < sint (BatchSize r)" and "accepts_all env"
    and "\<forall>tx\<in>set stream. Error tx = None"
    and "length (batch s) < nat (sint (BatchSize r))"
  shows "\<exists>s'. drain r env c s stream = (s', None) \<and>
           calls s' = calls s @ map (SignAndSendTransaction c)
             (full_batches (nat (sint (BatchSize r))) (batch s @ batched_actions r stream)) \<and>
           batch s' = remainder (nat (sint (BatchSize r))) (batch s @ batched_actions r stream)"
  using assms(4,5)
proof (induction stream arbitrary: s)
  case Nil
  then show ?case
    by (simp add: batched_actions_def full_batches_short remainder_short)
next
  case (Cons tx stream)
  let ?N = "nat (sint (BatchSize r))"
  from assms(2) have N: "0 < ?N" by simp
  from Cons.prems(1) have noerr: "Error tx = None" "\<forall>tx\<in>set stream. Error tx = None"
    by simp_all
  from accepted_step[OF assms(1,2,3) noerr(1) Cons.prems(2), of c]
  obtain s1 where step: "replay_step r env c s tx = (s1, None)"
    and s1: "if is_submission tx
            then if Suc (length (batch s)) = ?N
                 then calls s1 = calls s @ [SignAndSendTransaction c (batch s @ [batched r tx])] \<and>
                      batch s1 = []
                 else calls s1 = calls s \<and> batch s1 = batch s @ [batched r tx]
            else calls s1 = calls s \<and> batch s1 = batch s"
    by blast
  have short: "length (batch s1) < ?N"
    using s1 Cons.prems(2) N by (auto split: if_splits)
  from Cons.IH[OF noerr(2) short] obtain s' where
    rest: "drain r env c s1 stream = (s', None)"
    and calls: "calls s' = calls s1 @ map (SignAndSendTransaction c)
             (full_batches ?N (batch s1 @ batched_actions r stream))"
    and left: "batch s' = remainder ?N (batch s1 @ batched_actions r stream)"
    by blast
  have whole: "drain r env c s (tx # stream) = (s', None)"
    using step rest by simp
  show ?case
  proof (cases "is_submission tx")
    case False
    with s1 calls left whole show ?thesis
      by (simp add: batched_actions_def)
  next
    case sub: True
    then have acts: "batched_actions r (tx # stream) = batched r tx # batched_actions r stream"
      by (simp add: batched_actions_def)
    show ?thesis
    proof (cases "Suc (length (batch s)) = ?N")
      case False
      with sub s1 calls left whole show ?thesis
        by (simp add: acts)
    next
      case True
      then have len: "length (batch s @ [batched r tx]) = ?N" by simp
      have split: "batch s @ batched r tx # batched_actions r stream =
                   (batch s @ [batched r tx]) @ batched_actions r stream"
        by simp
      from sub True s1 have "calls s1 = calls s @ [SignAndSendTransaction c (batch s @ [batched r tx])]"
        "batch s1 = []"
        by simp_all
      with calls left whole show ?thesis
        unfolding acts split full_batches_append[OF len N] remainder_append[OF len N]
        by simp
    qed
  qed
qed

lemma div_of_parts: "t < n \<Longrightarrow> (q * n + t) div n = (q::nat)"
  by simp

lemma ceil_div:
  assumes "0 < (n::nat)"
  shows "(m + n - 1) div n = m div n + (if m mod n = 0 then 0 else 1)"
proof -
  define q t where "q = m div n" and "t = m mod n"
  have m: "m = q * n + t" and t: "t < n"
    using assms by (simp_all add: q_def t_def)
  show ?thesis
  proof (cases "t = 0")
    case True
    have "m + n - 1 = q * n + (n - 1)"
      using m True assms by simp
    moreover have "n - 1 < n" using assms by simp
    ultimately have "(m + n - 1) div n = q"
      by (simp only: div_of_parts)
    with True show ?thesis by (simp add: q_def t_def)
  next
    case False
    have "m + n - 1 = Suc q * n + (t - 1)"
      using m False by simp
    moreover have "t - 1 < n" using t by simp
    ultimately have "(m + n - 1) div n = Suc q"
      by (simp only: div_of_parts)
    with False show ?thesis by (simp add: q_def t_def)
  qed
qed

lemma remainder_empty: "0 < n \<Longrightarrow> remainder n xs = [] \<longleftrightarrow> length xs mod n = 0"
  using length_remainder[of n xs] by auto

lemma length_grouped:
  assumes "0 < n"
  shows "length (grouped n xs) = (length xs + n - 1) div n"
proof -
  have "length (grouped n xs) = length xs div n + (if length xs mod n = 0 then 0 else 1)"
    using assms by (simp add: grouped_def remainder_empty full_batches_def)
  then show ?thesis
    by (simp only: ceil_div[OF assms])
qed

lemma nth_grouped:
  assumes "0 < n" and "k < length (grouped n xs)"
  shows "grouped n xs ! k = take n (drop (k * n) xs)"
proof (cases "k < length xs div n")
  case True
  then show ?thesis
    by (simp add: grouped_def full_batches_def nth_append)
next
  case False
  have full: "length (full_batches n xs) = length xs div n"
    by (simp add: full_batches_def)
  from False assms(2) have k: "k = length xs div n" and left: "remainder n xs \<noteq> []"
    by (auto simp: grouped_def full split: if_splits)
  have "length (drop (k * n) xs) < n"
    using assms(1) by (simp add: k minus_div_mult_eq_mod)
  then have "take n (drop (k * n) xs) = remainder n xs"
    by (simp add: remainder_def k)
  with left show ?thesis
    by (simp add: grouped_def nth_append full k)
qed

lemma size_grouped:
  assumes "0 < n" and "k < length (grouped n xs)"
  shows "length (grouped n xs ! k) =
           (if Suc k < length (grouped n xs) \<or> length xs mod n = 0 then n else length xs mod n)"
proof -
  have full: "length (full_batches n xs) = length xs div n"
    by (simp add: full_batches_def)
  have len: "length (grouped n xs) = length xs div n + (if length xs mod n = 0 then 0 else 1)"
    using assms(1) by (simp add: grouped_def full remainder_empty)
  show ?thesis
  proof (cases "k < length xs div n")
    case True
    then have "Suc k * n \<le> length xs div n * n"
      by (intro mult_le_mono1) simp
    also have "\<dots> \<le> length xs" by simp
    finally have "n \<le> length xs - k * n" by simp
    then have "length (grouped n xs ! k) = n"
      unfolding nth_grouped[OF assms] by simp
    moreover from True len have "Suc k < length (grouped n xs) \<or> length xs mod n = 0 \<or>
        length xs mod n = n"
      by (auto split: if_splits)
    ultimately show ?thesis
      using assms(1) by auto
  next
    case False
    with assms(2) len have k: "k = length xs div n" and nz: "length xs mod n \<noteq> 0"
      by (auto split: if_splits)
    have "length (grouped n xs ! k) = length xs mod n"
      unfolding nth_grouped[OF assms] using assms(1) by (simp add: k minus_div_mult_eq_mod)
    with k nz len show ?thesis by simp
  qed
qed

text \<open>
  Claim C4. In batch mode with \<open>BatchSize = N > 0\<close>, on a stream without Error step whose
  submissions the account accepts, \<^verbatim>\<open>Replay\<close> returns \<^verbatim>\<open>nil\<close> after exactly
  \<open>\<lceil>M / N\<rceil>\<close> calls of \<^verbatim>\<open>SignAndSendTransaction\<close>, where \<open>M\<close> is the number of Submission
  steps. Call \<open>k\<close> sends the actions \<open>k N, \<dots>, k N + N - 1\<close> of the stream: each call has
  \<open>N\<close> actions, but the last one has \<open>M mod N\<close> when \<open>N\<close> does not divide \<open>M\<close>, which is
  the partial batch sent after the channel is closed. Between any two steps the batch under
  construction has at most \<open>N\<close> entries.
\<close>

theorem batches_of_batch_size:
  assumes "Batch r" and "0 < sint (BatchSize r)" and "accepts_all env"
    and "\<forall>tx\<in>set stream. Error tx = None"
  shows "\<exists>s. consume r env c (stream, Closed) = (s, None) \<and>
           length (calls s) = (length (batched_actions r stream) + batch_size r - 1) div batch_size r \<and>
           (\<forall>k<length (calls s).
              calls s ! k = SignAndSendTransaction c
                (take (batch_size r) (drop (k * batch_size r) (batched_actions r stream))) \<and>
              submitted_size (calls s ! k) =
                (if Suc k < length (calls s) \<or> length (batched_actions r stream) mod batch_size r = 0
                 then batch_size r
                 else length (batched_actions r stream) mod batch_size r)) \<and>
           (\<forall>n. length (batch (fst (drain r env c start_run (take n stream)))) \<le> batch_size r)"
proof -
  let ?N = "batch_size r" and ?acts = "batched_actions r stream"
  have N: "0 < ?N" and N_def: "?N = nat (sint (BatchSize r))"
    using assms(2) by (simp_all add: batch_size_def)
  have empty: "length (batch start_run) < nat (sint (BatchSize r))"
    using assms(2) by (simp add: start_run_def)
  from accepted_drain[OF assms(1,2,3,4) empty, of c]
  obtain s1 where loop: "drain r env c start_run stream = (s1, None)"
    and calls1: "calls s1 = map (SignAndSendTransaction c) (full_batches ?N ?acts)"
    and batch1: "batch s1 = remainder ?N ?acts"
    by (auto simp: start_run_def N_def)
  have "\<exists>s. last_batch r env c s1 = (s, None) \<and>
          calls s = map (SignAndSendTransaction c) (grouped ?N ?acts)"
  proof (cases "remainder ?N ?acts = []")
    case True
    with calls1 batch1 show ?thesis
      by (simp add: last_batch_def grouped_def)
  next
    case False
    from accepted_submit[OF assms(3), of "Batch r" None False
        "SignAndSendTransaction c (batch s1)" "print [RunningLastBatch] s1"]
    obtain s where "submit env (Batch r) None False (SignAndSendTransaction c (batch s1))
        (print [RunningLastBatch] s1) = (s, None)"
      and "calls s = calls s1 @ [SignAndSendTransaction c (batch s1)]"
      by auto
    with False calls1 batch1 show ?thesis
      by (simp add: last_batch_def grouped_def)
  qed
  then obtain s where final: "last_batch r env c s1 = (s, None)"
    and calls: "calls s = map (SignAndSendTransaction c) (grouped ?N ?acts)"
    by blast
  have run: "consume r env c (stream, Closed) = (s, None)"
    using loop final by (simp add: consume_def)
  have count: "length (calls s) = (length ?acts + ?N - 1) div ?N"
    using calls length_grouped[OF N] by simp
  have each: "calls s ! k = SignAndSendTransaction c (take ?N (drop (k * ?N) ?acts)) \<and>
      submitted_size (calls s ! k) =
        (if Suc k < length (calls s) \<or> length ?acts mod ?N = 0 then ?N else length ?acts mod ?N)"
    if "k < length (calls s)" for k
  proof -
    from that calls have k: "k < length (grouped ?N ?acts)" by simp
    then have "calls s ! k = SignAndSendTransaction c (grouped ?N ?acts ! k)"
      using calls by simp
    with nth_grouped[OF N k] size_grouped[OF N k] calls show ?thesis
      by simp
  qed
  have bound: "length (batch (fst (drain r env c start_run (take n stream)))) \<le> ?N" for n
    using drain_batch_bound[OF assms(2) empty, of env c "take n stream"]
    by (cases "drain r env c start_run (take n stream)") (simp add: N_def)
  from run count each bound show ?thesis by blast
qed

lemma example_env_accepts: "accepts_all example_env"
  by (simp add: accepts_all_def example_env_def ok_payload_def has_failure_def)

lemma three_submissions_actions:
  "length (batched_actions batching three_submissions) = 3 \<and> batch_size batching = 2"
  by (simp add: batched_actions_def three_submissions_def is_submission_def submission_of_def
      comment_step_def example_env_def batch_size_def batching_def example_replayer_def)

theorem batches_of_batch_size_witness:
  "Batch batching \<and> 0 < sint (BatchSize batching) \<and> accepts_all example_env \<and>
   map Error three_submissions = [None, None, None, None] \<and>
   (\<exists>s. consume batching example_env ''evm'' (three_submissions, Closed) = (s, None) \<and>
      length (calls s) = 2 \<and> submitted_size (calls s ! 0) = 2 \<and>
      submitted_size (calls s ! 1) = 1)"
proof -
  have mode: "Batch batching" and size: "0 < sint (BatchSize batching)"
    by (simp_all add: batching_def example_replayer_def)
  have clean: "\<forall>tx\<in>set three_submissions. Error tx = None"
    by (simp add: three_submissions_def submission_of_def comment_step_def)
  have acts: "length (batched_actions batching three_submissions) = 3"
    and N: "batch_size batching = 2"
    using three_submissions_actions by simp_all
  from batches_of_batch_size[OF mode size example_env_accepts clean, of "''evm''"]
  obtain s where run: "consume batching example_env ''evm'' (three_submissions, Closed) = (s, None)"
    and count': "length (calls s) = (3 + 2 - 1) div (2::nat)"
    and each': "\<forall>k<length (calls s).
        calls s ! k = SignAndSendTransaction ''evm''
          (take 2 (drop (k * 2) (batched_actions batching three_submissions))) \<and>
        submitted_size (calls s ! k) =
          (if Suc k < length (calls s) \<or> (3::nat) mod 2 = 0 then 2 else 3 mod 2)"
    unfolding acts N by blast
  from count' have count: "length (calls s) = 2" by simp
  from each' have each: "\<forall>k<length (calls s). submitted_size (calls s ! k) =
        (if Suc k < length (calls s) \<or> (3::nat) mod 2 = 0 then 2 else 3 mod 2)"
    by blast
  from each count have "submitted_size (calls s ! 0) = 2" "submitted_size (calls s ! 1) = 1"
    by simp_all
  moreover have "map Error three_submissions = [None, None, None, None]"
    by (simp add: three_submissions_def submission_of_def comment_step_def)
  ultimately show ?thesis
    using mode size example_env_accepts run count by blast
qed

lemma accepted_step_any:
  assumes "accepts_all env" and "Error tx = None" and "Batch r \<longrightarrow> BatchSize r \<noteq> 0"
  shows "\<exists>s'. replay_step r env c s tx = (s', None)"
proof (cases "MethodName tx \<noteq> ''''")
  case False
  with assms(2) show ?thesis
    by (simp add: replay_step_def)
next
  case sub: True
  show ?thesis
  proof (cases "Batch r")
    case False
    from accepted_submit[OF assms(1), of "Batch r" "EthTx tx" False
        "FunctionCall c (MethodName tx) (Args tx) (Gas r) 0" "print_comment PrintComment tx s"]
      sub False assms(2)
    show ?thesis
      by (auto simp: replay_step_def)
  next
    case True
    with assms(3) have nz: "BatchSize r \<noteq> 0" by simp
    let ?s2 = "(print_comment PrintBatching tx s)\<lparr>batch := batch (print_comment PrintBatching tx s) @
                 [\<lparr>Enum = 2, fc_MethodName = MethodName tx, fc_Args = Args tx,
                   fc_Gas = Gas r div BatchSize r, fc_Deposit = 0\<rparr>]\<rparr>"
    from accepted_submit[OF assms(1), of "Batch r" "EthTx tx" True
        "SignAndSendTransaction c (batch ?s2)" "print [RunningBatch] ?s2"]
      sub True nz assms(2)
    show ?thesis
      by (auto simp: replay_step_def gas_share_def Let_def)
  qed
qed

lemma accepted_drain_any:
  assumes "accepts_all env" and "Batch r \<longrightarrow> BatchSize r \<noteq> 0"
    and "\<forall>tx\<in>set stream. Error tx = None"
  shows "\<exists>s'. drain r env c s stream = (s', None)"
  using assms(3)
proof (induction stream arbitrary: s)
  case Nil
  then show ?case by simp
next
  case (Cons tx stream)
  from Cons.prems have "Error tx = None" by simp
  from accepted_step_any[OF assms(1) this assms(2), of c s]
  obtain s1 where "replay_step r env c s tx = (s1, None)" by blast
  moreover from Cons.IH[of s1] Cons.prems obtain s' where "drain r env c s1 stream = (s', None)"
    by auto
  ultimately show ?case by simp
qed

text \<open>
  Claim C5. At an Error step the loop of \<^verbatim>\<open>Replay\<close> returns. Whatever follows the Error
  step in the stream, and however the generator ended, has no effect on the run: no step
  after the Error step is processed. When the steps before the Error step have not ended
  the run, \<^verbatim>\<open>Replay\<close> returns the very error that the step carries, and the state is the
  one that the steps before it left: no call is made and nothing is printed for the Error
  step, and the batch under construction is not sent. The steps before it do not end the
  run when none of them is an Error step and the account accepts every call.
\<close>

theorem error_step_ends_run:
  assumes "Error tx = Some e"
  shows "consume r env c (pre @ tx # post, g) = consume r env c (pre @ [tx], g') \<and>
         (\<forall>s. drain r env c start_run pre = (s, None) \<longrightarrow>
              consume r env c (pre @ tx # post, g) = (s, Some (Returned e))) \<and>
         (accepts_all env \<and> (Batch r \<longrightarrow> BatchSize r \<noteq> 0) \<and> list_all (\<lambda>t. Error t = None) pre \<longrightarrow>
            snd (consume r env c (pre @ tx # post, g)) = Some (Returned e))"
proof -
  have at_error: "drain r env c s (tx # rest) = (s, Some (Returned e))" for s rest
    using assms by (rule drain_error_step)
  have cut: "drain r env c start_run (pre @ tx # post) = drain r env c start_run (pre @ [tx])"
    by (simp only: drain_append at_error)
  have "\<exists>s a. drain r env c start_run (pre @ [tx]) = (s, Some a)"
    unfolding drain_append at_error by (auto split: prod.splits option.splits)
  then obtain s a where ended: "drain r env c start_run (pre @ [tx]) = (s, Some a)"
    by blast
  have first: "consume r env c (pre @ tx # post, g) = consume r env c (pre @ [tx], g')"
    using consume_aborted[OF ended] consume_aborted[OF ended[folded cut]] by simp
  have "consume r env c (pre @ tx # post, g) = (s', Some (Returned e))"
    if "drain r env c start_run pre = (s', None)" for s'
  proof -
    have "drain r env c start_run (pre @ tx # post) = (s', Some (Returned e))"
      unfolding drain_append at_error using that by simp
    then show ?thesis by (rule consume_aborted)
  qed
  then have second: "\<forall>s. drain r env c start_run pre = (s, None) \<longrightarrow>
      consume r env c (pre @ tx # post, g) = (s, Some (Returned e))"
    by blast
  have third: "snd (consume r env c (pre @ tx # post, g)) = Some (Returned e)"
    if "accepts_all env \<and> (Batch r \<longrightarrow> BatchSize r \<noteq> 0) \<and> list_all (\<lambda>t. Error t = None) pre"
  proof -
    from that have "accepts_all env" "Batch r \<longrightarrow> BatchSize r \<noteq> 0" "\<forall>t\<in>set pre. Error t = None"
      by (simp_all add: list_all_iff)
    from accepted_drain_any[OF this, of c start_run] second show ?thesis
      by auto
  qed
  from first second third show ?thesis by blast
qed

lemmas run_defs = replay_step_def submit_def procTxResult_def prettyPrintResponse_def
  getTxnId_def has_failure_def print_def print_comment_def ok_payload_def start_run_def
  last_batch_def consume_def showTx_def

lemma run_before_error_drained:
  "drain example_replayer example_env ''evm'' start_run stream_before_error =
     (run_before_error, None)"
  by (simp add: stream_before_error_def run_before_error_def run_defs example_defs)

theorem error_step_ends_run_witness:
  "Error (error_step boom) = Some boom \<and>
   accepts_all example_env \<and> \<not> Batch example_replayer \<and>
   list_all (\<lambda>t. Error t = None) stream_before_error \<and>
   drain example_replayer example_env ''evm'' start_run stream_before_error =
     (run_before_error, None) \<and>
   consume example_replayer example_env ''evm''
     (stream_before_error @ error_step boom # [submission_of (beginChainTx example_env)], Closed) =
     (run_before_error, Some (Returned boom))"
proof -
  have err: "Error (error_step boom) = Some boom"
    by (simp add: error_step_def)
  from error_step_ends_run[OF err, of example_replayer example_env "''evm''"
      stream_before_error "[submission_of (beginChainTx example_env)]" Closed Closed]
    run_before_error_drained err
  have "consume example_replayer example_env ''evm''
     (stream_before_error @ error_step boom # [submission_of (beginChainTx example_env)], Closed) =
     (run_before_error, Some (Returned boom))"
    by blast
  moreover have "\<not> Batch example_replayer"
    by (simp add: example_replayer_def)
  moreover have "list_all (\<lambda>t. Error t = None) stream_before_error"
    by (simp add: stream_before_error_def submission_of_def comment_step_def)
  ultimately show ?thesis
    using err example_env_accepts run_before_error_drained by blast
qed


section \<open>Properties of the result verifier\<close>

lemma showTx_encoded: "MarshalBinary env t = Inr rlp \<Longrightarrow> showTx env t = Inr (decoded_lines rlp t)"
  by (simp add: showTx_def decoded_lines_def split: option.splits)

lemma procTxResult_success:
  assumes "map_of txResult ''status'' = Some (JObject status)"
    and "MarshalIndent env status = Inr jsn" and "\<not> has_failure status"
  shows "procTxResult env b tx txResult =
           (prettyPrintResponse txResult @ [PrintStatus jsn], Inr ())"
  using assms by (simp add: procTxResult_def)

lemma procTxResult_failure:
  assumes "map_of txResult ''status'' = Some (JObject status)"
    and "MarshalIndent env status = Inr jsn" and "has_failure status"
  shows "procTxResult env b tx txResult =
           (case (if \<not> b then tx else None) of
              None \<Rightarrow> (prettyPrintResponse txResult @ [PrintStatus jsn],
                         Inl (Returned TransactionFailed))
            | Some t \<Rightarrow>
                (case showTx env t of
                   Inl p \<Rightarrow> (prettyPrintResponse txResult @ [PrintStatus jsn], Inl (Panicked p))
                 | Inr shown \<Rightarrow> (prettyPrintResponse txResult @ [PrintStatus jsn] @ shown,
                                  Inl (Returned TransactionFailed))))"
  using assms by (simp add: procTxResult_def Let_def)

lemma procTxResult_ok:
  assumes "procTxResult env b tx txResult = (ls, Inr ok)"
  shows "reports_success txResult"
  using assms
  by (auto simp: procTxResult_def reports_success_def Let_def
      split: option.splits json.splits sum.splits if_splits)

lemma submit_ok:
  assumes "submit env b tx reset c s = (s', None)"
  shows "calls s' = calls s @ [c] \<and> (\<exists>res. Account env (calls s) c = Inr res \<and> reports_success res)"
proof (cases "Account env (calls s) c")
  case (Inl err)
  with assms show ?thesis by (simp add: submit_def)
next
  case (Inr res)
  obtain ls v where v: "procTxResult env b tx res = (ls, v)"
    by (cases "procTxResult env b tx res")
  with Inr assms obtain ok where "v = Inr ok"
    by (cases v) (auto simp: submit_def Let_def)
  with v procTxResult_ok have "reports_success res" by blast
  moreover from Inr v \<open>v = Inr ok\<close> assms have "calls s' = calls s @ [c]"
    by (cases reset) (auto simp: submit_def Let_def print_def)
  ultimately show ?thesis using Inr by simp
qed

text \<open>Every call made so far was answered with a success.\<close>

lemma answers_extend:
  assumes "\<forall>k<length (calls s). \<exists>res. answer env s k = Inr res \<and> reports_success res"
    and "calls s' = calls s @ [c]"
    and "Account env (calls s) c = Inr res" and "reports_success res"
  shows "\<forall>k<length (calls s'). \<exists>res. answer env s' k = Inr res \<and> reports_success res"
proof (intro allI impI)
  fix k assume "k < length (calls s')"
  with assms(2) consider "k < length (calls s)" | "k = length (calls s)"
    by (auto simp: less_Suc_eq)
  then show "\<exists>res. answer env s' k = Inr res \<and> reports_success res"
  proof cases
    case 1
    then have "answer env s' k = answer env s k"
      by (simp add: answer_def assms(2) nth_append)
    with assms(1) 1 show ?thesis by simp
  next
    case 2
    then have "answer env s' k = Account env (calls s) c"
      by (simp add: answer_def assms(2))
    with assms(3,4) show ?thesis by simp
  qed
qed

lemma replay_step_calls:
  assumes "replay_step r env c s tx = (s', None)"
  shows "calls s' = calls s \<or>
         (\<exists>call res. calls s' = calls s @ [call] \<and> Account env (calls s) call = Inr res \<and>
            reports_success res)"
proof (cases "Error tx = None \<and> MethodName tx \<noteq> ''''")
  case False
  with assms show ?thesis
    by (auto simp: replay_step_def split: option.splits if_splits)
next
  case sub: True
  show ?thesis
  proof (cases "Batch r")
    case False
    with sub assms have
      "submit env (Batch r) (EthTx tx) False
         (FunctionCall c (MethodName tx) (Args tx) (Gas r) 0) (print_comment PrintComment tx s) =
       (s', None)"
      by (simp add: replay_step_def)
    from submit_ok[OF this] show ?thesis by auto
  next
    case True
    let ?s2 = "(print_comment PrintBatching tx s)\<lparr>batch := batch (print_comment PrintBatching tx s) @
                 [\<lparr>Enum = 2, fc_MethodName = MethodName tx, fc_Args = Args tx,
                   fc_Gas = Gas r div BatchSize r, fc_Deposit = 0\<rparr>]\<rparr>"
    from sub True assms have nz: "BatchSize r \<noteq> 0"
      by (auto simp: replay_step_def gas_share_def split: if_splits)
    show ?thesis
    proof (cases "int (length (batch ?s2)) = sint (BatchSize r)")
      case full: True
      with sub \<open>Batch r\<close> nz assms have
        "submit env (Batch r) (EthTx tx) True (SignAndSendTransaction c (batch ?s2))
           (print [RunningBatch] ?s2) = (s', None)"
        by (simp add: replay_step_def gas_share_def Let_def)
      from submit_ok[OF this] show ?thesis by auto
    next
      case False
      with sub True nz assms have "s' = ?s2"
        by (simp add: replay_step_def gas_share_def Let_def)
      then show ?thesis by simp
    qed
  qed
qed

lemma drain_answers:
  assumes "drain r env c s stream = (s', None)"
    and "\<forall>k<length (calls s). \<exists>res. answer env s k = Inr res \<and> reports_success res"
  shows "\<forall>k<length (calls s'). \<exists>res. answer env s' k = Inr res \<and> reports_success res"
  using assms
proof (induction stream arbitrary: s)
  case Nil
  then show ?case by simp
next
  case (Cons tx stream)
  obtain s1 a1 where step: "replay_step r env c s tx = (s1, a1)"
    by (cases "replay_step r env c s tx")
  with Cons.prems(1) have a1: "a1 = None" and rest: "drain r env c s1 stream = (s', None)"
    by (cases a1; simp)+
  from replay_step_calls[OF step[unfolded a1]] Cons.prems(2)
  have "\<forall>k<length (calls s1). \<exists>res. answer env s1 k = Inr res \<and> reports_success res"
  proof (elim disjE exE conjE)
    assume "calls s1 = calls s"
    with Cons.prems(2) show ?thesis by (simp add: answer_def)
  next
    fix call res
    assume "calls s1 = calls s @ [call]" "Account env (calls s) call = Inr res"
      "reports_success res"
    with Cons.prems(2) show ?thesis by (rule answers_extend)
  qed
  from Cons.IH[OF rest this] show ?case .
qed

lemma consume_answers:
  assumes "consume r env c (stream, g) = (s, None)"
  shows "\<forall>k<length (calls s). \<exists>res. answer env s k = Inr res \<and> reports_success res"
proof -
  from assms obtain s1 where loop: "drain r env c start_run stream = (s1, None)"
    and final: "last_batch r env c s1 = (s, None)"
    by (auto simp: consume_def split: prod.splits option.splits gen_end.splits)
  have "\<forall>k<length (calls start_run). \<exists>res. answer env start_run k = Inr res \<and> reports_success res"
    by (simp add: start_run_def)
  from drain_answers[OF loop this]
  have s1: "\<forall>k<length (calls s1). \<exists>res. answer env s1 k = Inr res \<and> reports_success res" .
  show ?thesis
  proof (cases "length (batch s1) > 0")
    case False
    with final s1 show ?thesis by (simp add: last_batch_def)
  next
    case True
    with final have "submit env (Batch r) None False (SignAndSendTransaction c (batch s1))
        (print [RunningLastBatch] s1) = (s, None)"
      by (simp add: last_batch_def)
    from submit_ok[OF this] obtain res where
      "calls s = calls s1 @ [SignAndSendTransaction c (batch s1)]"
      "Account env (calls s1) (SignAndSendTransaction c (batch s1)) = Inr res"
      "reports_success res"
      by auto
    with s1 show ?thesis by (rule answers_extend)
  qed
qed

text \<open>
  Claim C6. Take a response whose \<^verbatim>\<open>status\<close> is a map that can be rendered, and a source
  transaction (if one is given) that can be encoded, as it was when its step was built.
  Then \<^verbatim>\<open>procTxResult\<close> returns the error \<^verbatim>\<open>replayer: transaction failed\<close> exactly when the
  status has a non-null \<^verbatim>\<open>Failure\<close>. In that case it has printed the transaction
  identifier if there is one, then the status, then, when a transaction is given and batch
  mode is off, the decoded transaction. Without a failure it has printed the transaction
  identifier if there is one and the status, and returns \<^verbatim>\<open>nil\<close>. The single call, the
  full batch and the last batch all pass through this check: when \<^verbatim>\<open>Replay\<close> returns
  \<^verbatim>\<open>nil\<close>, every call that it made was answered with a status without failure.
\<close>

theorem verifier_reports_failure:
  assumes "map_of txResult ''status'' = Some (JObject status)"
    and "MarshalIndent env status = Inr jsn"
    and "case tx of None \<Rightarrow> True | Some t \<Rightarrow> MarshalBinary env t = Inr (rlp t)"
  shows "(snd (procTxResult env b tx txResult) = Inl (Returned TransactionFailed) \<longleftrightarrow>
            has_failure status) \<and>
         (has_failure status \<longrightarrow>
            fst (procTxResult env b tx txResult) =
              prettyPrintResponse txResult @ [PrintStatus jsn] @
              (case tx of Some t \<Rightarrow> if b then [] else decoded_lines (rlp t) t | None \<Rightarrow> [])) \<and>
         (\<not> has_failure status \<longrightarrow>
            procTxResult env b tx txResult =
              (prettyPrintResponse txResult @ [PrintStatus jsn], Inr ())) \<and>
         prettyPrintResponse txResult =
           (if getTxnId txResult = '''' then [] else [TransactionId (getTxnId txResult)]) \<and>
         (\<forall>t h. map_of txResult ''transaction'' = Some (JObject t) \<and>
                map_of t ''hash'' = Some (JString h) \<longrightarrow> getTxnId txResult = h) \<and>
         (\<forall>r c stream g s. consume r env c (stream, g) = (s, None) \<longrightarrow>
            (\<forall>k<length (calls s). \<exists>res. answer env s k = Inr res \<and> reports_success res))"
proof -
  have ok: "procTxResult env b tx txResult =
      (prettyPrintResponse txResult @ [PrintStatus jsn], Inr ())" if "\<not> has_failure status"
    using assms(1,2) that by (rule procTxResult_success)
  have bad: "procTxResult env b tx txResult =
      (prettyPrintResponse txResult @ [PrintStatus jsn] @
         (case tx of Some t \<Rightarrow> if b then [] else decoded_lines (rlp t) t | None \<Rightarrow> []),
       Inl (Returned TransactionFailed))" if "has_failure status"
  proof (cases tx)
    case None
    with procTxResult_failure[OF assms(1,2) that, of b tx] show ?thesis by simp
  next
    case (Some t)
    with assms(3) have "showTx env t = Inr (decoded_lines (rlp t) t)"
      by (simp add: showTx_encoded)
    with Some procTxResult_failure[OF assms(1,2) that, of b tx] show ?thesis by simp
  qed
  have verdict: "snd (procTxResult env b tx txResult) = Inl (Returned TransactionFailed) \<longleftrightarrow>
      has_failure status"
    using ok bad by (cases "has_failure status") simp_all
  have txn: "prettyPrintResponse txResult =
      (if getTxnId txResult = '''' then [] else [TransactionId (getTxnId txResult)])"
    by (simp add: prettyPrintResponse_def)
  have hash: "getTxnId txResult = h"
    if "map_of txResult ''transaction'' = Some (JObject t) \<and> map_of t ''hash'' = Some (JString h)"
    for t h
    using that by (simp add: getTxnId_def)
  have shown: "has_failure status \<longrightarrow>
      fst (procTxResult env b tx txResult) =
        prettyPrintResponse txResult @ [PrintStatus jsn] @
        (case tx of Some t \<Rightarrow> if b then [] else decoded_lines (rlp t) t | None \<Rightarrow> [])"
    using bad by simp
  have quiet: "\<not> has_failure status \<longrightarrow>
      procTxResult env b tx txResult = (prettyPrintResponse txResult @ [PrintStatus jsn], Inr ())"
    using ok by simp
  have ident: "\<forall>t h. map_of txResult ''transaction'' = Some (JObject t) \<and>
      map_of t ''hash'' = Some (JString h) \<longrightarrow> getTxnId txResult = h"
    using hash by blast
  have alike: "\<forall>r c stream g s. consume r env c (stream, g) = (s, None) \<longrightarrow>
      (\<forall>k<length (calls s). \<exists>res. answer env s k = Inr res \<and> reports_success res)"
    using consume_answers by blast
  show ?thesis
    by (intro conjI) (rule verdict shown quiet txn ident alike)+
qed

lemma failed_payload_result:
  "procTxResult example_env False (Some (example_tx 0)) failed_payload =
     ([TransactionId ''0xabc'', PrintStatus ''status''] @ decoded_lines [0] (example_tx 0),
      Inl (Returned TransactionFailed))"
  by (simp add: run_defs failed_payload_def decoded_lines_def example_env_def example_tx_def)

theorem verifier_reports_failure_witness:
  "map_of failed_payload ''status'' = Some (JObject [(''Failure'', JString ''out of gas'')]) \<and>
   MarshalIndent example_env [(''Failure'', JString ''out of gas'')] = Inr ''status'' \<and>
   MarshalBinary example_env (example_tx 0) = Inr [0] \<and>
   has_failure [(''Failure'', JString ''out of gas'')] \<and>
   snd (procTxResult example_env False (Some (example_tx 0)) failed_payload) =
     Inl (Returned TransactionFailed) \<and>
   fst (procTxResult example_env False (Some (example_tx 0)) failed_payload) =
     [TransactionId ''0xabc'', PrintStatus ''status''] @ decoded_lines [0] (example_tx 0)"
proof -
  have status: "map_of failed_payload ''status'' =
      Some (JObject [(''Failure'', JString ''out of gas'')])"
    by (simp add: failed_payload_def)
  have rendered: "MarshalIndent example_env [(''Failure'', JString ''out of gas'')] = Inr ''status''"
    by (simp add: example_env_def)
  have encoded: "MarshalBinary example_env (example_tx 0) = Inr [0]"
    by (simp add: example_env_def example_tx_def)
  have given: "case Some (example_tx 0) of None \<Rightarrow> True
      | Some t \<Rightarrow> MarshalBinary example_env t = Inr ((\<lambda>t. [ucast (Nonce t)]) t)"
    by (simp add: example_env_def)
  have failure: "has_failure [(''Failure'', JString ''out of gas'')]"
    by (simp add: has_failure_def)
  from verifier_reports_failure[OF status rendered given, of False] failure
  have "snd (procTxResult example_env False (Some (example_tx 0)) failed_payload) =
      Inl (Returned TransactionFailed)"
    by blast
  with status rendered encoded failure failed_payload_result show ?thesis
    by simp
qed

text \<open>
  Claim C10. \<^verbatim>\<open>procTxResult\<close> ends in the panic of the failed type assertion, after the
  line of \<^verbatim>\<open>PrettyPrintResponse\<close>, exactly when the response has no \<^verbatim>\<open>status\<close> that is a
  string-keyed map: the key is missing, or its value has another shape. It does not
  return an error then.
\<close>

theorem status_assertion_panics:
  "procTxResult env b tx txResult =
     (prettyPrintResponse txResult, Inl (Panicked InterfaceConversion)) \<longleftrightarrow>
   (\<forall>status. map_of txResult ''status'' \<noteq> Some (JObject status))"
  by (auto simp: procTxResult_def Let_def showTx_def
      split: option.splits json.splits sum.splits if_splits)

theorem status_assertion_panics_witness:
  "map_of bare_payload ''status'' = None \<and>
   procTxResult example_env False None bare_payload =
     ([TransactionId ''0xabc''], Inl (Panicked InterfaceConversion))"
proof -
  have missing: "map_of bare_payload ''status'' = None"
    by (simp add: bare_payload_def)
  then have "\<forall>status. map_of bare_payload ''status'' \<noteq> Some (JObject status)"
    by simp
  with status_assertion_panics[of example_env False None bare_payload]
  have "procTxResult example_env False None bare_payload =
      (prettyPrintResponse bare_payload, Inl (Panicked InterfaceConversion))"
    by blast
  moreover have "prettyPrintResponse bare_payload = [TransactionId ''0xabc'']"
    by (simp add: prettyPrintResponse_def getTxnId_def bare_payload_def)
  ultimately show ?thesis
    using missing by simp
qed

section \<open>Properties of the retry helper\<close>







section \<open>Gas\<close>

lemma tx_loop_comment_gas:
  assumes "tx_loop r env h i txs = (steps, e)" and "s \<in> set steps"
    and "Comment s = SubmitComment h' i' n a"
  shows "BatchSize r \<noteq> 0 \<and> FormatNearAmount env (Gas r div BatchSize r) = Inr a"
  using assms(1,2)
proof (induction txs arbitrary: i steps e)
  case Nil
  then show ?case by simp
next
  case (Cons tx txs)
  obtain steps' e' where rest: "tx_loop r env h (Suc i) txs = (steps', e')"
    by (cases "tx_loop r env h (Suc i) txs")
  from Cons.prems rest Cons.IH[OF rest] assms(3) show ?case
    by (auto simp: comment_step_def error_step_def gas_share_def split: if_splits sum.splits)
qed

lemma block_loop_comment_gas:
  assumes "block_loop r env k hs = (steps, e)" and "s \<in> set steps"
    and "Comment s = SubmitComment h' i' n a"
  shows "BatchSize r \<noteq> 0 \<and> FormatNearAmount env (Gas r div BatchSize r) = Inr a"
  using assms(1,2)
proof (induction hs arbitrary: k steps e)
  case Nil
  then show ?case by simp
next
  case (Cons blockHash hs)
  obtain rest e' where rest: "block_loop r env (Suc k) hs = (rest, e')"
    by (cases "block_loop r env (Suc k) hs")
  have other: "Comment (comment_step c) \<noteq> SubmitComment h' i' n a \<or> c = SubmitComment h' i' n a"
    "Comment (error_step err) \<noteq> SubmitComment h' i' n a"
    "Comment (begin_step r env k b ctx) \<noteq> SubmitComment h' i' n a" for c err b ctx
    by (auto simp: comment_step_def error_step_def begin_step_def submission_of_def)
  have inner: "BatchSize r \<noteq> 0 \<and> FormatNearAmount env (Gas r div BatchSize r) = Inr a"
    if "tx_loop r env k 0 txs = (txsteps, te)" "s \<in> set txsteps" for txs txsteps te
    using tx_loop_comment_gas[OF that assms(3)] .
  from Cons.prems rest Cons.IH[OF rest] assms(3) other show ?case
    by (auto simp: comment_step_def split: if_splits option.splits sum.splits prod.splits exit.splits
        dest: inner)
qed

lemma submit_calls: "submit env b tx reset c s = (s', a) \<Longrightarrow> calls s' = calls s @ [c]"
  by (cases reset) (auto simp: submit_def Let_def print_def split: sum.splits prod.splits)

lemma replay_step_gas:
  assumes "replay_step r env c s tx = (s', a)"
    and "list_all (action_gas_ok r) (batch s)" and "list_all (call_gas_ok r) (calls s)"
  shows "list_all (action_gas_ok r) (batch s') \<and> list_all (call_gas_ok r) (calls s')"
proof (cases "Error tx = None \<and> MethodName tx \<noteq> ''''")
  case False
  with assms show ?thesis
    by (auto simp: replay_step_def split: option.splits if_splits)
next
  case sub: True
  show ?thesis
  proof (cases "Batch r")
    case False
    with sub assms(1) have sent:
      "submit env (Batch r) (EthTx tx) False
         (FunctionCall c (MethodName tx) (Args tx) (Gas r) 0) (print_comment PrintComment tx s) =
       (s', a)"
      by (simp add: replay_step_def)
    from submit_calls[OF sent] submit_batch[OF sent] False assms(2,3) show ?thesis
      by auto
  next
    case True
    let ?s2 = "(print_comment PrintBatching tx s)\<lparr>batch := batch (print_comment PrintBatching tx s) @
                 [\<lparr>Enum = 2, fc_MethodName = MethodName tx, fc_Args = Args tx,
                   fc_Gas = Gas r div BatchSize r, fc_Deposit = 0\<rparr>]\<rparr>"
    have s2: "list_all (action_gas_ok r) (batch ?s2)" "calls ?s2 = calls s"
      using assms(2) by (simp_all add: action_gas_ok_def)
    show ?thesis
    proof (cases "BatchSize r = 0")
      case zero: True
      with sub True assms(1) have "s' = print_comment PrintBatching tx s"
        by (simp add: replay_step_def gas_share_def)
      with assms(2,3) show ?thesis by simp
    next
      case nz: False
      show ?thesis
      proof (cases "int (length (batch ?s2)) = sint (BatchSize r)")
        case full: True
        with sub True nz assms(1) have sent:
          "submit env (Batch r) (EthTx tx) True (SignAndSendTransaction c (batch ?s2))
             (print [RunningBatch] ?s2) = (s', a)"
          by (simp add: replay_step_def gas_share_def Let_def)
        from submit_calls[OF sent] submit_batch[OF sent] s2 assms(3) show ?thesis
          by auto
      next
        case False
        with sub True nz assms(1) have "s' = ?s2"
          by (simp add: replay_step_def gas_share_def Let_def)
        with s2 assms(3) show ?thesis by simp
      qed
    qed
  qed
qed

lemma drain_gas:
  assumes "drain r env c s stream = (s', a)"
    and "list_all (action_gas_ok r) (batch s)" and "list_all (call_gas_ok r) (calls s)"
  shows "list_all (action_gas_ok r) (batch s') \<and> list_all (call_gas_ok r) (calls s')"
  using assms
proof (induction stream arbitrary: s)
  case Nil
  then show ?case by simp
next
  case (Cons tx stream)
  obtain s1 a1 where step: "replay_step r env c s tx = (s1, a1)"
    by (cases "replay_step r env c s tx")
  note kept = replay_step_gas[OF step Cons.prems(2,3)]
  show ?case
  proof (cases a1)
    case None
    with step Cons.prems(1) have "drain r env c s1 stream = (s', a)" by simp
    from Cons.IH[OF this] kept show ?thesis by simp
  next
    case (Some x)
    with step Cons.prems(1) kept show ?thesis by simp
  qed
qed

lemma consume_gas:
  assumes "consume r env c (stream, g) = (s, a)"
  shows "list_all (call_gas_ok r) (calls s)"
proof -
  obtain s1 a1 where loop: "drain r env c start_run stream = (s1, a1)"
    by (cases "drain r env c start_run stream")
  from drain_gas[OF loop] have s1: "list_all (action_gas_ok r) (batch s1)"
    "list_all (call_gas_ok r) (calls s1)"
    by (simp_all add: start_run_def)
  show ?thesis
  proof (cases "a1 = None \<and> g = Closed \<and> length (batch s1) > 0")
    case False
    with assms loop s1 show ?thesis
      by (auto simp: consume_def last_batch_def split: option.splits gen_end.splits)
  next
    case True
    with assms loop have sent: "submit env (Batch r) None False
        (SignAndSendTransaction c (batch s1)) (print [RunningLastBatch] s1) = (s, a)"
      by (simp add: consume_def last_batch_def)
    from submit_calls[OF sent] s1 show ?thesis by simp
  qed
qed

lemma single_call:
  assumes "\<not> Batch r" and "is_submission tx"
  shows "calls (fst (replay_step r env c s tx)) =
           calls s @ [FunctionCall c (MethodName tx) (Args tx) (Gas r) 0]"
proof -
  obtain s' a where sent:
      "submit env (Batch r) (EthTx tx) False
         (FunctionCall c (MethodName tx) (Args tx) (Gas r) 0) (print_comment PrintComment tx s) =
       (s', a)"
    by (cases "submit env (Batch r) (EthTx tx) False
         (FunctionCall c (MethodName tx) (Args tx) (Gas r) 0) (print_comment PrintComment tx s)")
  with assms have "replay_step r env c s tx = (s', a)"
    by (simp add: replay_step_def is_submission_def)
  with submit_calls[OF sent] show ?thesis by simp
qed

lemma pos_sint_unat:
  fixes x :: "64 word"
  assumes "0 < sint x"
  shows "nat (sint x) = unat x"
proof -
  have "bit x (LENGTH(64) - Suc 0) \<longleftrightarrow> sint x < 0"
    by (rule bit_last_iff)
  with assms have "\<not> bit x 63"
    by simp
  then have high: "\<not> bit (uint x) 63"
    by (simp add: bit_uint_iff)
  then have "sint x = take_bit 63 (uint x)"
    by (simp add: sint_uint signed_take_bit_eq_if_positive)
  also have "\<dots> = take_bit 64 (uint x)"
    using high take_bit_Suc_from_most[of 63 "uint x"] by simp
  also have "\<dots> = uint x"
    using uint_lt2p[of x] by (simp add: take_bit_int_eq_self)
  finally show ?thesis by simp
qed

lemma share_is_quotient:
  assumes "0 < sint (BatchSize r)"
  shows "unat (Gas r div BatchSize r) = unat (Gas r) div nat (sint (BatchSize r))"
  by (simp add: pos_sint_unat[OF assms] unat_div)

text \<open>
  Claim C8. Every step whose comment is \<^verbatim>\<open>submit(...)\<close> names as its gas the amount
  formatted from \<^verbatim>\<open>r.Gas/uint64(r.BatchSize)\<close>, which for a positive batch size is the
  integer quotient of the two numbers. Every action of every batch that \<^verbatim>\<open>Replay\<close> sends
  has this quotient as its gas and no deposit. A single call is made only when batching is
  off, and it is made for each Submission step with the whole \<^verbatim>\<open>r.Gas\<close> and no deposit.
\<close>

theorem gas_allotment:
  "(\<forall>steps e. startTxGenerator r env blocks = (steps, e) \<longrightarrow>
      (\<forall>s\<in>set steps. \<forall>h i n a. Comment s = SubmitComment h i n a \<longrightarrow>
         FormatNearAmount env (Gas r div BatchSize r) = Inr a)) \<and>
   (0 < sint (BatchSize r) \<longrightarrow>
      unat (Gas r div BatchSize r) = unat (Gas r) div nat (sint (BatchSize r))) \<and>
   (\<forall>s a. consume r env c (stream, g) = (s, a) \<longrightarrow> list_all (call_gas_ok r) (calls s)) \<and>
   (\<not> Batch r \<and> is_submission tx \<longrightarrow>
      calls (fst (replay_step r env c s0 tx)) =
        calls s0 @ [FunctionCall c (MethodName tx) (Args tx) (Gas r) 0])"
proof -
  have comments: "FormatNearAmount env (Gas r div BatchSize r) = Inr a"
    if run: "startTxGenerator r env blocks = (steps, e)" and s: "s \<in> set steps"
      and c: "Comment s = SubmitComment h i n a" for steps e s h i n a
  proof -
    obtain bs x where loop: "block_loop r env 0 blocks = (bs, x)"
      by (cases "block_loop r env 0 blocks")
    with run s have steps: "steps = submission_of (beginChainTx env) # bs"
      by (cases "chan_capacity r") (auto simp: startTxGenerator_def)
    from steps s c have "s \<in> set bs"
      by (auto simp: submission_of_def)
    from block_loop_comment_gas[OF loop this c] show ?thesis by simp
  qed
  have sent: "list_all (call_gas_ok r) (calls s)" if "consume r env c (stream, g) = (s, a)" for s a
    using that by (rule consume_gas)
  from comments share_is_quotient sent single_call show ?thesis
    by blast
qed

lemma three_submissions_calls:
  "calls (fst (consume batching example_env ''evm'' (three_submissions, Closed))) =
     [SignAndSendTransaction ''evm''
        [\<lparr>Enum = 2, fc_MethodName = ''begin_chain'', fc_Args = [], fc_Gas = 150, fc_Deposit = 0\<rparr>,
         \<lparr>Enum = 2, fc_MethodName = ''begin_block'', fc_Args = [], fc_Gas = 150, fc_Deposit = 0\<rparr>],
      SignAndSendTransaction ''evm''
        [\<lparr>Enum = 2, fc_MethodName = ''submit'', fc_Args = [0], fc_Gas = 150, fc_Deposit = 0\<rparr>]]"
  by (simp add: three_submissions_def batching_def run_defs example_defs)

theorem gas_allotment_witness:
  "0 < sint (BatchSize batching) \<and>
   unat (Gas batching div BatchSize batching) = 300 div 2 \<and>
   list_all (call_gas_ok batching)
     (calls (fst (consume batching example_env ''evm'' (three_submissions, Closed)))) \<and>
   \<not> Batch example_replayer \<and> is_submission (submission_of (beginChainTx example_env)) \<and>
   calls (fst (replay_step example_replayer example_env ''evm'' start_run
             (submission_of (beginChainTx example_env)))) =
     [FunctionCall ''evm'' ''begin_chain'' [] 300 0]"
proof -
  have size: "0 < sint (BatchSize batching)"
    and numbers: "unat (Gas batching) = 300" "nat (sint (BatchSize batching)) = 2"
    by (simp_all add: batching_def example_replayer_def)
  have run: "consume batching example_env ''evm'' (three_submissions, Closed) =
      (fst (consume batching example_env ''evm'' (three_submissions, Closed)),
       snd (consume batching example_env ''evm'' (three_submissions, Closed)))"
    by simp
  have single: "\<not> Batch example_replayer"
    "is_submission (submission_of (beginChainTx example_env))"
    by (simp_all add: example_replayer_def is_submission_def submission_of_def example_env_def)
  from gas_allotment[of batching example_env "[]" "''evm''" three_submissions Closed] size run
  have "unat (Gas batching div BatchSize batching) =
      unat (Gas batching) div nat (sint (BatchSize batching))"
    and "list_all (call_gas_ok batching)
      (calls (fst (consume batching example_env ''evm'' (three_submissions, Closed))))"
    by blast+
  moreover
  from gas_allotment[of example_replayer example_env "[]" "''evm''" "[]" Closed
      "submission_of (beginChainTx example_env)" start_run] single
  have "calls (fst (replay_step example_replayer example_env ''evm'' start_run
             (submission_of (beginChainTx example_env)))) =
      calls start_run @ [FunctionCall ''evm''
        (MethodName (submission_of (beginChainTx example_env)))
        (Args (submission_of (beginChainTx example_env))) (Gas example_replayer) 0]"
    by blast
  ultimately show ?thesis
    using size single numbers
    by (simp add: start_run_def submission_of_def example_env_def example_replayer_def)
qed

section \<open>A batch size of zero\<close>

lemma tx_loop_zero:
  assumes "BatchSize r = 0" and "tx_loop r env h i txs = (steps, e)"
  shows "(\<forall>s\<in>set steps. submitted_tx s = None) \<and>
         (e = Return \<longrightarrow> (\<exists>t. isl (MarshalBinary env t))) \<and>
         (\<forall>p. e = Panic p \<longrightarrow> p = DivideByZero)"
  using assms(2)
proof (induction txs arbitrary: i steps e)
  case Nil
  then show ?case by simp
next
  case (Cons tx txs)
  obtain steps' e' where rest: "tx_loop r env h (Suc i) txs = (steps', e')"
    by (cases "tx_loop r env h (Suc i) txs")
  have fails: "\<exists>t. isl (MarshalBinary env t)" if "MarshalBinary env tx = Inl err" for err
    using that by (intro exI[of _ tx]) simp
  from Cons.prems rest Cons.IH[OF rest] assms(1) show ?case
    by (auto simp: gas_share_def split: if_splits sum.splits intro: fails)
qed

lemma block_loop_zero:
  assumes "BatchSize r = 0" and "block_loop r env k hs = (steps, e)"
  shows "(\<forall>s\<in>set steps. submitted_tx s = None) \<and>
         (e = Return \<longrightarrow>
            (\<exists>j<length hs. ReadBlock env (hs ! j) (k + j) = None) \<or>
            (\<exists>b. isl (getBlockContext env b)) \<or> (\<exists>t. isl (MarshalBinary env t))) \<and>
         (\<forall>p. e = Panic p \<longrightarrow> p = DivideByZero)"
  using assms(2)
proof (induction hs arbitrary: k steps e)
  case Nil
  then show ?case by simp
next
  case (Cons blockHash hs)
  obtain rest e' where rest: "block_loop r env (Suc k) hs = (rest, e')"
    by (cases "block_loop r env (Suc k) hs")
  from Cons.IH[OF rest]
  have later: "\<forall>s\<in>set rest. submitted_tx s = None"
    "e' = Return \<longrightarrow>
       (\<exists>j<length (blockHash # hs). ReadBlock env ((blockHash # hs) ! j) (k + j) = None) \<or>
       (\<exists>b. isl (getBlockContext env b)) \<or> (\<exists>t. isl (MarshalBinary env t))"
    "\<forall>p. e' = Panic p \<longrightarrow> p = DivideByZero"
    by (simp, fastforce, simp)
  show ?case
  proof (cases "BreakBlock r \<noteq> 0 \<and> BreakTx r = 0 \<and> int k = sint (BreakBlock r)")
    case True
    with Cons.prems show ?thesis by auto
  next
    case nobreak: False
    show ?thesis
    proof (cases "int k < sint (StartBlock r)")
      case True
      with nobreak Cons.prems rest later show ?thesis
        by auto
    next
      case False
      show ?thesis
      proof (cases "ReadBlock env blockHash k")
        case None
        with nobreak False Cons.prems have "e = Return" "steps = [error_step (CannotReadBlock k blockHash)]"
          by auto
        moreover from None have "\<exists>j<length (blockHash # hs).
            ReadBlock env ((blockHash # hs) ! j) (k + j) = None"
          by (intro exI[of _ 0]) simp
        ultimately show ?thesis by simp
      next
        case (Some b)
        show ?thesis
        proof (cases "getBlockContext env b")
          case (Inl err)
          with nobreak False Some Cons.prems have "e = Return" "steps = [error_step err]"
            by auto
          moreover from Inl have "\<exists>b. isl (getBlockContext env b)"
            by (intro exI[of _ b]) simp
          ultimately show ?thesis by simp
        next
          case (Inr ctx)
          obtain txsteps te where txl: "tx_loop r env k 0 (Transactions b) = (txsteps, te)"
            by (cases "tx_loop r env k 0 (Transactions b)")
          note inner = tx_loop_zero[OF assms(1) txl]
          show ?thesis
          proof (cases "te = Next")
            case True
            with nobreak False Some Inr txl rest Cons.prems
            have "steps = begin_step r env k b ctx # txsteps @ rest" "e = e'"
              by auto
            with inner later show ?thesis by auto
          next
            case stop: False
            with nobreak False Some Inr txl Cons.prems
            have "steps = begin_step r env k b ctx # txsteps" "e = te"
              by (auto split: exit.splits)
            with inner show ?thesis by auto
          qed
        qed
      qed
    qed
  qed
qed

text \<open>
  Claim C9. With \<^verbatim>\<open>BatchSize = 0\<close> the channel has capacity 0 and the quotient
  \<^verbatim>\<open>r.Gas/uint64(r.BatchSize)\<close> panics, whether batching is on or off. The generator then
  never emits a Submission step for a source transaction. When no break is configured, no
  collaborator fails and the chain has a transaction at or after the start point, the
  goroutine ends in the panic of the division; it sends no Error step for it.
\<close>

theorem zero_batch_size_panics:
  assumes "BatchSize r = 0"
  shows "chan_capacity r = Inr 0 \<and> gas_share r = Inl DivideByZero \<and>
         (\<forall>steps e. startTxGenerator r env blocks = (steps, e) \<longrightarrow>
            (\<forall>s\<in>set steps. submitted_tx s = None) \<and>
            (BreakBlock r = 0 \<and> has_active_tx r env blocks \<and> reads_succeed env blocks \<longrightarrow>
               e = Crashed DivideByZero))"
proof -
  have cap: "chan_capacity r = Inr 0"
    using assms by (simp add: chan_capacity_def)
  have share: "gas_share r = Inl DivideByZero"
    using assms by (simp add: gas_share_def)
  have gen: "(\<forall>s\<in>set steps. submitted_tx s = None) \<and>
      (BreakBlock r = 0 \<and> has_active_tx r env blocks \<and> reads_succeed env blocks \<longrightarrow>
         e = Crashed DivideByZero)"
    if run: "startTxGenerator r env blocks = (steps, e)" for steps e
  proof -
    obtain bs x where loop: "block_loop r env 0 blocks = (bs, x)"
      by (cases "block_loop r env 0 blocks")
    with run cap have steps: "steps = submission_of (beginChainTx env) # bs"
      and e: "e = end_of x"
      by (simp_all add: startTxGenerator_def)
    note zero = block_loop_zero[OF assms loop]
    from zero steps have none: "\<forall>s\<in>set steps. submitted_tx s = None"
      by simp
    have "e = Crashed DivideByZero"
      if nobreak: "BreakBlock r = 0" and active: "has_active_tx r env blocks"
        and reads: "reads_succeed env blocks"
    proof (cases x)
      case Next
      from active obtain h b i where h: "h < length blocks" "sint (StartBlock r) \<le> int h"
        and b: "ReadBlock env (blocks ! h) h = Some b"
        and i: "i < length (Transactions b)" "\<not> before_start r h i"
        by (auto simp: has_active_tx_def split: option.splits)
      from block_loop_complete[OF loop[unfolded Next] h(1)] h(2) b i
      have "\<exists>s\<in>set bs. submitted_tx s = Some (h, i)"
        by auto
      with zero show ?thesis by auto
    next
      case Break
      with block_loop_never_breaks[OF nobreak loop] show ?thesis by simp
    next
      case Return
      with zero reads show ?thesis
        by (auto simp: reads_succeed_def)
    next
      case (Panic p)
      with zero e show ?thesis
        by (simp add: end_of_def)
    qed
    with none show ?thesis by simp
  qed
  from cap share gen show ?thesis by blast
qed

lemma no_batch_size_stream:
  "startTxGenerator no_batch_size example_env [10, 11, 12] =
     ([submission_of (beginChainTx example_env),
       submission_of (beginBlockTx example_env 300 ()),
       submission_of (beginBlockTx example_env 300 ())],
      Crashed DivideByZero)"
  by (simp add: no_batch_size_def example_defs)

theorem zero_batch_size_panics_witness:
  "BatchSize no_batch_size = 0 \<and> \<not> Batch no_batch_size \<and> BreakBlock no_batch_size = 0 \<and>
   has_active_tx no_batch_size example_env [10, 11, 12] \<and>
   reads_succeed example_env [10, 11, 12] \<and>
   chan_capacity no_batch_size = Inr 0 \<and>
   snd (startTxGenerator no_batch_size example_env [10, 11, 12]) = Crashed DivideByZero"
proof -
  have zero: "BatchSize no_batch_size = 0" and off: "\<not> Batch no_batch_size"
    and nobreak: "BreakBlock no_batch_size = 0"
    by (simp_all add: no_batch_size_def example_replayer_def)
  have "1 < length [10, 11, 12 :: hash] \<and> sint (StartBlock no_batch_size) \<le> int 1 \<and>
      (case ReadBlock example_env ([10, 11, 12] ! 1) 1 of None \<Rightarrow> False
       | Some b \<Rightarrow> \<exists>i<length (Transactions b). \<not> before_start no_batch_size 1 i)"
    by (auto simp: no_batch_size_def example_replayer_def example_env_def example_chain_def
        before_start_def)
  then have active: "has_active_tx no_batch_size example_env [10, 11, 12]"
    unfolding has_active_tx_def by blast
  note reads = example_reads_succeed
  from zero_batch_size_panics[OF zero, of example_env "[10, 11, 12]"]
    no_batch_size_stream nobreak active reads
  have "chan_capacity no_batch_size = Inr 0"
    "snd (startTxGenerator no_batch_size example_env [10, 11, 12]) = Crashed DivideByZero"
    by simp_all
  with zero off nobreak active reads show ?thesis by blast
qed

section \<open>The consumer never waits on an open channel\<close>

text \<open>
  The goroutine leaves the channel open only on \<^verbatim>\<open>return\<close>, right after an Error step. The
  loop of \<^verbatim>\<open>Replay\<close> returns at that step at the latest, so it never receives from the
  open channel again.
\<close>

lemma tx_loop_return_last:
  assumes "tx_loop r env h i txs = (steps, Return)"
  shows "steps \<noteq> [] \<and> Error (last steps) \<noteq> None"
  using assms
proof (induction txs arbitrary: i steps)
  case Nil
  then show ?case by simp
next
  case (Cons tx txs)
  obtain steps' e' where rest: "tx_loop r env h (Suc i) txs = (steps', e')"
    by (cases "tx_loop r env h (Suc i) txs")
  show ?case
  proof (cases "e' = Return")
    case True
    from Cons.IH[OF rest[unfolded True]] Cons.prems rest True show ?thesis
      by (auto simp: error_step_def split: if_splits sum.splits)
  next
    case False
    with Cons.prems rest show ?thesis
      by (auto simp: error_step_def split: if_splits sum.splits)
  qed
qed

lemma block_loop_return_last:
  assumes "block_loop r env k hs = (steps, Return)"
  shows "steps \<noteq> [] \<and> Error (last steps) \<noteq> None"
  using assms
proof (induction hs arbitrary: k steps)
  case Nil
  then show ?case by simp
next
  case (Cons blockHash hs)
  obtain rest e' where rest: "block_loop r env (Suc k) hs = (rest, e')"
    by (cases "block_loop r env (Suc k) hs")
  have later: "rest \<noteq> [] \<and> Error (last rest) \<noteq> None" if "e' = Return"
    using Cons.IH[OF rest[unfolded that]] .
  show ?case
  proof (cases "BreakBlock r \<noteq> 0 \<and> BreakTx r = 0 \<and> int k = sint (BreakBlock r)")
    case True
    with Cons.prems show ?thesis by auto
  next
    case nobreak: False
    show ?thesis
    proof (cases "int k < sint (StartBlock r)")
      case True
      with nobreak Cons.prems rest later show ?thesis
        by auto
    next
      case False
      show ?thesis
      proof (cases "ReadBlock env blockHash k")
        case None
        with nobreak False Cons.prems show ?thesis
          by (auto simp: error_step_def)
      next
        case (Some b)
        show ?thesis
        proof (cases "getBlockContext env b")
          case (Inl err)
          with nobreak False Some Cons.prems show ?thesis
            by (auto simp: error_step_def)
        next
          case (Inr ctx)
          obtain txsteps te where txl: "tx_loop r env k 0 (Transactions b) = (txsteps, te)"
            by (cases "tx_loop r env k 0 (Transactions b)")
          show ?thesis
          proof (cases "te = Next")
            case True
            with nobreak False Some Inr txl rest Cons.prems
            have "steps = begin_step r env k b ctx # txsteps @ rest" "e' = Return"
              by auto
            with later show ?thesis by simp
          next
            case stop: False
            with nobreak False Some Inr txl Cons.prems
            have "steps = begin_step r env k b ctx # txsteps" "te = Return"
              by (auto split: exit.splits)
            with tx_loop_return_last[of r env k 0 "Transactions b" txsteps] txl show ?thesis
              by simp
          qed
        qed
      qed
    qed
  qed
qed

lemma drain_passes_no_error:
  "drain r env c s stream = (s', None) \<Longrightarrow> \<forall>tx\<in>set stream. Error tx = None"
proof (induction stream arbitrary: s)
  case Nil
  then show ?case by simp
next
  case (Cons tx stream)
  obtain s1 a1 where step: "replay_step r env c s tx = (s1, a1)"
    by (cases "replay_step r env c s tx")
  with Cons.prems have a1: "a1 = None" and rest: "drain r env c s1 stream = (s', None)"
    by (cases a1; simp)+
  from step a1 have "Error tx = None"
    by (cases "Error tx") (simp_all add: replay_step_def)
  with Cons.IH[OF rest] show ?case by simp
qed

lemma Replay_never_blocks: "snd (Replay r env c blocks) \<noteq> Some Deadlock"
proof
  assume blocked: "snd (Replay r env c blocks) = Some Deadlock"
  obtain steps e where gen: "startTxGenerator r env blocks = (steps, e)"
    by (cases "startTxGenerator r env blocks")
  obtain s a where loop: "drain r env c start_run steps = (s, a)"
    by (cases "drain r env c start_run steps")
  have no_abort: "a' \<noteq> Deadlock" if "replay_step r env c s0 tx = (s1, Some a')" for s0 s1 tx a'
    using that
    by (auto simp: replay_step_def submit_def procTxResult_def Let_def
        split: option.splits if_splits sum.splits json.splits prod.splits)
  have drained: "a' \<noteq> Deadlock" if "drain r env c s0 stream = (s1, Some a')" for s0 s1 stream a'
    using that
  proof (induction stream arbitrary: s0)
    case Nil
    then show ?case by simp
  next
    case (Cons tx stream)
    obtain s2 a2 where step: "replay_step r env c s0 tx = (s2, a2)"
      by (cases "replay_step r env c s0 tx")
    show ?case
    proof (cases a2)
      case None
      with step Cons.prems Cons.IH[of s2] show ?thesis by simp
    next
      case (Some x)
      with step Cons.prems no_abort[of s0 tx s2 x] show ?thesis by simp
    qed
  qed
  have flushed: "snd (last_batch r env c s0) \<noteq> Some Deadlock" for s0
    by (auto simp: last_batch_def submit_def procTxResult_def Let_def
        split: option.splits if_splits sum.splits json.splits prod.splits)
  from blocked gen loop drained flushed have open_end: "a = None" "e = LeftOpen"
    by (auto simp: Replay_def consume_def split: if_splits option.splits gen_end.splits)
  from gen open_end(2) obtain bs where "block_loop r env 0 blocks = (bs, Return)"
    and steps: "steps = submission_of (beginChainTx env) # bs"
    by (cases "block_loop r env 0 blocks")
      (auto simp: startTxGenerator_def end_of_def split: sum.splits exit.splits)
  from block_loop_return_last[OF this(1)] steps have "Error (last steps) \<noteq> None" "steps \<noteq> []"
    by simp_all
  then have "\<exists>tx\<in>set steps. Error tx \<noteq> None"
    using last_in_set by blast
  with drain_passes_no_error[OF loop[unfolded open_end(1)]] show False
    by auto
qed

end
